theory Spec2Isabelle
  imports Main "HOL-Library.Multiset" "HOL-Library.Sublist" "HOL-Library.List_Lexorder"
    "HOL-Library.Char_ord"
begin

section \<open>Characters and strings\<close>

text \<open>
  The texts are read with \<^verbatim>\<open>codecs.open(..., encoding="cp1252")\<close>, a single-byte
  encoding: a character of the model is the byte of the file, and the classes below give
  Python's classification of the character that byte decodes to.
\<close>

datatype error =
    FileNotFoundError
  | UnicodeDecodeError
  | KeyError
  | AttributeError
  | TypeError
  | IndexError
  | ValueError
  | UnpicklingError
  | NotModelled

definition code :: "char \<Rightarrow> nat" where
  "code c = of_char c"

definition lower_char :: "char \<Rightarrow> char" where
  \<comment> \<open>\<^verbatim>\<open>str.lower\<close> on one character: A-Z, the Latin-1 capitals (not the
      multiplication sign), and the four capitals of the 0x80-0x9F block.\<close>
  "lower_char c =
     (let n = code c in
      if (65 \<le> n \<and> n \<le> 90) \<or> (192 \<le> n \<and> n \<le> 222 \<and> n \<noteq> 215) then char_of (n + 32)
      else if n = 138 \<or> n = 140 \<or> n = 142 then char_of (n + 16)
      else if n = 159 then char_of (255::nat)
      else c)"

definition lower :: "string \<Rightarrow> string" where
  "lower s = map lower_char s"

definition is_digit :: "char \<Rightarrow> bool" where
  \<comment> \<open>\<^verbatim>\<open>\d\<close>: the decimal digits; cp1252 has no other character of category Nd.\<close>
  "is_digit c = (48 \<le> code c \<and> code c \<le> 57)"

definition is_word_char :: "char \<Rightarrow> bool" where
  \<comment> \<open>\<^verbatim>\<open>\w\<close>: alphanumeric characters and the underscore.\<close>
  "is_word_char c =
     (let n = code c in
      (48 \<le> n \<and> n \<le> 57) \<or> (65 \<le> n \<and> n \<le> 90) \<or> n = 95 \<or> (97 \<le> n \<and> n \<le> 122)
      \<or> n \<in> {131, 136, 138, 140, 142, 154, 156, 158, 159, 170, 178, 179, 181, 185, 186,
               188, 189, 190}
      \<or> (192 \<le> n \<and> n \<noteq> 215 \<and> n \<noteq> 247))"

definition is_space :: "char \<Rightarrow> bool" where
  \<comment> \<open>the characters \<^verbatim>\<open>str.strip()\<close> removes\<close>
  "is_space c = (let n = code c in (9 \<le> n \<and> n \<le> 13) \<or> (28 \<le> n \<and> n \<le> 32) \<or> n = 160)"

definition strip :: "string \<Rightarrow> string" where
  "strip s = rev (dropWhile is_space (rev (dropWhile is_space s)))"

definition digit_char :: "nat \<Rightarrow> char" where
  "digit_char d = char_of (48 + d)"

fun show_nat :: "nat \<Rightarrow> string" where
  \<comment> \<open>the decimal numeral an f-string prints for a non-negative integer\<close>
  "show_nat n = (if n < 10 then [digit_char n] else show_nat (n div 10) @ [digit_char (n mod 10)])"

declare show_nat.simps [simp del]

section \<open>Paths and files\<close>

definition rstrip_sep :: "string \<Rightarrow> string" where
  "rstrip_sep s = rev (dropWhile (\<lambda>c. c = CHR ''/'') (rev s))"

definition os_path_split :: "string \<Rightarrow> string \<times> string" where
  \<comment> \<open>\<^verbatim>\<open>posixpath.split\<close>: cut after the last slash; the head loses its trailing
      slashes unless it consists of slashes only.\<close>
  "os_path_split p =
     (let tail = rev (takeWhile (\<lambda>c. c \<noteq> CHR ''/'') (rev p));
          head = take (length p - length tail) p
      in (if head \<noteq> [] \<and> list_ex (\<lambda>c. c \<noteq> CHR ''/'') head then rstrip_sep head else head,
          tail))"

definition os_path_join :: "string \<Rightarrow> string \<Rightarrow> string" where
  "os_path_join a b =
     (if b \<noteq> [] \<and> hd b = CHR ''/'' then b
      else if a = [] \<or> last a = CHR ''/'' then a @ b
      else a @ ''/'' @ b)"

type_synonym files = "string \<rightharpoonup> char list"

definition undefined_cp1252 :: "char \<Rightarrow> bool" where
  \<comment> \<open>the five bytes the cp1252 codec has no character for\<close>
  "undefined_cp1252 c = (code c \<in> {129, 141, 143, 144, 157})"

definition decode_cp1252 :: "char list \<Rightarrow> error + string" where
  "decode_cp1252 bs = (if list_ex undefined_cp1252 bs then Inl UnicodeDecodeError else Inr bs)"

section \<open>Documents\<close>

record Book =
  fullpath :: string
  filename :: string
  wordset :: "string set"

definition Book_text :: "files \<Rightarrow> string \<Rightarrow> error + string" where
  \<comment> \<open>\<^verbatim>\<open>Book.text\<close>: opening a missing file raises, a byte outside cp1252 raises\<close>
  "Book_text fs path =
     (case fs path of None \<Rightarrow> Inl FileNotFoundError | Some bs \<Rightarrow> decode_cp1252 bs)"

definition Book_init :: "(string \<Rightarrow> string list) \<Rightarrow> files \<Rightarrow> string \<Rightarrow> error + Book" where
  \<comment> \<open>\<^verbatim>\<open>Book.__init__\<close>; \<open>tok\<close> is TextBlob's tokenizer (\<^verbatim>\<open>TextBlob(text).words\<close>),
      a library function taken as a parameter. Only the decode error is caught.\<close>
  "Book_init tok fs path =
     (case (case Book_text fs path of
              Inl UnicodeDecodeError \<Rightarrow> Inr []
            | Inl e \<Rightarrow> Inl e
            | Inr t \<Rightarrow> Inr t) of
        Inl e \<Rightarrow> Inl e
      | Inr text \<Rightarrow>
          Inr \<lparr>fullpath = path, filename = snd (os_path_split path),
               wordset = set (map lower (tok text))\<rparr>)"

section \<open>The metadata store and the reference list\<close>

text \<open>
  A row of \<^verbatim>\<open>csv.DictReader\<close> maps the column names to strings; a row shorter than
  the header gives \<^verbatim>\<open>None\<close> for the missing columns (the value \<open>Some None\<close> here),
  and a column the header lacks is a missing key.
\<close>

type_synonym row = "string \<rightharpoonup> string option"
type_synonym metadata = "string \<rightharpoonup> row"

definition lookup :: "metadata \<Rightarrow> string \<Rightarrow> string \<Rightarrow> error + string option" where
  \<comment> \<open>\<^verbatim>\<open>metadata[id][key]\<close>\<close>
  "lookup md ident key =
     (case md ident of
        None \<Rightarrow> Inl KeyError
      | Some r \<Rightarrow> (case r key of None \<Rightarrow> Inl KeyError | Some v \<Rightarrow> Inr v))"

definition strip_value :: "string option \<Rightarrow> error + string" where
  \<comment> \<open>\<^verbatim>\<open>v.strip()\<close>: \<^verbatim>\<open>None\<close> has no such method\<close>
  "strip_value v = (case v of None \<Rightarrow> Inl AttributeError | Some s \<Rightarrow> Inr (strip s))"

definition truthy :: "string option \<Rightarrow> bool" where
  "truthy v = (case v of None \<Rightarrow> False | Some s \<Rightarrow> s \<noteq> [])"

definition format_value :: "string option \<Rightarrow> string" where
  \<comment> \<open>how an f-string prints the value\<close>
  "format_value v = (case v of None \<Rightarrow> ''None'' | Some s \<Rightarrow> s)"

definition cite_author :: "metadata \<Rightarrow> string \<Rightarrow> error + string" where
  \<comment> \<open>the body of the first \<^verbatim>\<open>try\<close> of \<^verbatim>\<open>make_cites\<close>\<close>
  "cite_author md ident =
     (case lookup md ident ''Author-LN'' of
        Inl e \<Rightarrow> Inl e
      | Inr ln \<Rightarrow>
          (case strip_value ln of
             Inl e \<Rightarrow> Inl e
           | Inr author \<Rightarrow>
               (case lookup md ident ''Author-FN'' of
                  Inl e \<Rightarrow> Inl e
                | Inr fn \<Rightarrow>
                    if truthy fn then
                      (case strip_value fn of
                         Inl e \<Rightarrow> Inl e
                       | Inr f \<Rightarrow> Inr (author @ '', '' @ f))
                    else Inr author)))"

definition cite_title :: "metadata \<Rightarrow> string \<Rightarrow> error + string option" where
  \<comment> \<open>the body of the second \<^verbatim>\<open>try\<close>; \<^verbatim>\<open>None += str\<close> is a TypeError\<close>
  "cite_title md ident =
     (case lookup md ident ''Title'' of
        Inl e \<Rightarrow> Inl e
      | Inr title \<Rightarrow>
          (case lookup md ident ''Subtitle'' of
             Inl e \<Rightarrow> Inl e
           | Inr sub \<Rightarrow>
               if truthy sub then
                 (case strip_value sub of
                    Inl e \<Rightarrow> Inl e
                  | Inr s \<Rightarrow>
                      (case title of
                         None \<Rightarrow> Inl TypeError
                       | Some t \<Rightarrow> Inr (Some (t @ '': '' @ s))))
               else Inr title))"

definition catch_KeyError :: "error + 'a \<Rightarrow> 'a \<Rightarrow> string \<Rightarrow> error + ('a \<times> string list)" where
  \<comment> \<open>\<^verbatim>\<open>except KeyError\<close>: the fallback value and the identifier printed by
      \<^verbatim>\<open>pprint\<close>; any other error propagates\<close>
  "catch_KeyError r fallback ident =
     (case r of
        Inl KeyError \<Rightarrow> Inr (fallback, [ident])
      | Inl e \<Rightarrow> Inl e
      | Inr v \<Rightarrow> Inr (v, []))"

definition cite_line :: "nat \<Rightarrow> string \<Rightarrow> metadata \<Rightarrow> error + (string \<times> string list)" where
  \<comment> \<open>one iteration of the loop of \<^verbatim>\<open>make_cites\<close>: the line appended to \<open>out\<close>
      and what the iteration printed\<close>
  "cite_line i ident md =
     (case catch_KeyError (cite_author md ident) ''[Unknown author]'' ident of
        Inl e \<Rightarrow> Inl e
      | Inr (author, p1) \<Rightarrow>
          (case catch_KeyError (cite_title md ident) (Some (''['' @ ident @ '']'')) ident of
             Inl e \<Rightarrow> Inl e
           | Inr (title, p2) \<Rightarrow>
               Inr (''<r>'' @ show_nat (i + 1) @ ''</r> '' @ author @ '', <i>''
                      @ format_value title @ ''</i>'',
                    p1 @ p2)))"

fun make_cites_from :: "nat \<Rightarrow> string list \<Rightarrow> metadata \<Rightarrow> error + (string list \<times> string list)" where
  \<comment> \<open>the loop over \<^verbatim>\<open>enumerate(cite_filenames)\<close>, from index \<open>i\<close>\<close>
  "make_cites_from i [] md = Inr ([], [])"
| "make_cites_from i (ident # ids) md =
     (case cite_line i ident md of
        Inl e \<Rightarrow> Inl e
      | Inr (line, p) \<Rightarrow>
          (case make_cites_from (Suc i) ids md of
             Inl e \<Rightarrow> Inl e
           | Inr (out, ps) \<Rightarrow> Inr (line # out, p @ ps)))"

definition make_cites :: "string list \<Rightarrow> metadata \<Rightarrow> error + (string list \<times> string list)" where
  \<comment> \<open>the reference lines, and the diagnostics printed on the way\<close>
  "make_cites cite_filenames md = make_cites_from 0 cite_filenames md"

definition coauthor_name :: "metadata \<Rightarrow> string \<Rightarrow> error + string" where
  \<comment> \<open>the body of the \<^verbatim>\<open>try\<close> of \<^verbatim>\<open>get_coauthors\<close>\<close>
  "coauthor_name md ident =
     (case lookup md ident ''Author-FN'' of
        Inl e \<Rightarrow> Inl e
      | Inr fn \<Rightarrow>
          (case (if truthy fn
                 then (case strip_value fn of Inl e \<Rightarrow> Inl e | Inr f \<Rightarrow> Inr (f @ '' ''))
                 else Inr []) of
             Inl e \<Rightarrow> Inl e
           | Inr author \<Rightarrow>
               (case lookup md ident ''Author-LN'' of
                  Inl e \<Rightarrow> Inl e
                | Inr ln \<Rightarrow>
                    (case strip_value ln of
                       Inl e \<Rightarrow> Inl e
                     | Inr l \<Rightarrow> Inr (author @ l)))))"

fun coauthor_set :: "string list \<Rightarrow> metadata \<Rightarrow> string set \<Rightarrow> error + string set" where
  \<comment> \<open>the loop of \<^verbatim>\<open>get_coauthors\<close> over the set \<open>out\<close>\<close>
  "coauthor_set [] md out = Inr out"
| "coauthor_set (ident # ids) md out =
     (case catch_KeyError (coauthor_name md ident) ''[Unknown author]'' ident of
        Inl e \<Rightarrow> Inl e
      | Inr (author, _) \<Rightarrow> coauthor_set ids md (insert author out))"

definition get_coauthors ::
  "(string set \<Rightarrow> string list) \<Rightarrow> string list \<Rightarrow> metadata \<Rightarrow> error + string list" where
  \<comment> \<open>\<^verbatim>\<open>list(out)\<close> lists a set in the order of its hash table, which the
      language leaves open: \<open>list_of\<close> is that enumeration, a parameter\<close>
  "get_coauthors list_of cite_filenames md =
     (case coauthor_set cite_filenames md {} of
        Inl e \<Rightarrow> Inl e
      | Inr out \<Rightarrow> Inr (list_of out))"

section \<open>The annotator\<close>

text \<open>
  The state of the loop of \<^verbatim>\<open>main\<close> over the words of the primary document: the
  text being rewritten, the set \<^verbatim>\<open>done\<close>, the citation list, the corpus in its
  current order (\<^verbatim>\<open>random.shuffle\<close> rearranges it in place) and the state of the
  random generator.
\<close>

record 'g citify_state =
  book1_text :: string
  done_words :: "string set"
  cite_filenames :: "string list"
  books :: "Book list"
  rng :: 'g

type_synonym 'g shuffle = "'g \<Rightarrow> Book list \<Rightarrow> Book list \<times> 'g"

text \<open>
  \<open>sub word n text\<close> stands for the call
  \<^verbatim>\<open>re.sub(rf"\b({word})\b", rf"\1REF{n}REF", text, flags=re.IGNORECASE)\<close>,
  which raises when the word is not a well-formed pattern.
\<close>

type_synonym re_sub = "string \<Rightarrow> nat \<Rightarrow> string \<Rightarrow> error + string"

fun list_index :: "'a list \<Rightarrow> 'a \<Rightarrow> error + nat" where
  \<comment> \<open>\<^verbatim>\<open>list.index\<close>: the first position, a ValueError when there is none\<close>
  "list_index [] x = Inl ValueError"
| "list_index (y # ys) x =
     (if y = x then Inr 0
      else (case list_index ys x of Inl e \<Rightarrow> Inl e | Inr i \<Rightarrow> Inr (Suc i)))"

definition add_cite :: "string list \<Rightarrow> string \<Rightarrow> string list" where
  \<comment> \<open>\<^verbatim>\<open>if book2.filename not in cite_filenames: cite_filenames.append(...)\<close>\<close>
  "add_cite cites f = (if f \<in> set cites then cites else cites @ [f])"

definition cite_number :: "string list \<Rightarrow> string \<Rightarrow> error + nat" where
  \<comment> \<open>\<^verbatim>\<open>cite_filenames.index(book2.filename)+1\<close>, after the append\<close>
  "cite_number cites f =
     (case list_index (add_cite cites f) f of Inl e \<Rightarrow> Inl e | Inr i \<Rightarrow> Inr (i + 1))"

definition cite_word :: "re_sub \<Rightarrow> string \<Rightarrow> Book \<Rightarrow> 'g citify_state \<Rightarrow> error + 'g citify_state" where
  \<comment> \<open>the body of \<^verbatim>\<open>if word.lower() in book2.set:\<close>, up to the \<^verbatim>\<open>break\<close>\<close>
  "cite_word sub word book2 st =
     (case cite_number (cite_filenames st) (filename book2) of
        Inl e \<Rightarrow> Inl e
      | Inr n \<Rightarrow>
          (case sub word n (book1_text st) of
             Inl e \<Rightarrow> Inl e
           | Inr t \<Rightarrow>
               Inr (st\<lparr>cite_filenames := add_cite (cite_filenames st) (filename book2),
                       book1_text := t\<rparr>)))"

fun scan_books :: "re_sub \<Rightarrow> string \<Rightarrow> Book list \<Rightarrow> 'g citify_state \<Rightarrow> error + 'g citify_state" where
  \<comment> \<open>\<^verbatim>\<open>for book2 in books:\<close> with its \<^verbatim>\<open>break\<close> at the first match\<close>
  "scan_books sub word [] st = Inr st"
| "scan_books sub word (book2 # rest) st =
     (if lower word \<in> wordset book2 then cite_word sub word book2 st
      else scan_books sub word rest st)"

definition citify_word ::
  "re_sub \<Rightarrow> 'g shuffle \<Rightarrow> string \<Rightarrow> 'g citify_state \<Rightarrow> error + 'g citify_state" where
  \<comment> \<open>one iteration of \<^verbatim>\<open>for word in list(book1.set):\<close>\<close>
  "citify_word sub shuffle word st =
     (if lower word \<in> done_words st then Inr st
      else if CHR ''*'' \<in> set word then Inr st
      else
        (let (bs, g) = shuffle (rng st) (books st);
             st' = st\<lparr>done_words := insert (lower word) (done_words st), books := bs, rng := g\<rparr>
         in scan_books sub word bs st'))"

fun citify ::
  "re_sub \<Rightarrow> 'g shuffle \<Rightarrow> string list \<Rightarrow> 'g citify_state \<Rightarrow> error + 'g citify_state" where
  \<comment> \<open>the loop over the words, in the order \<^verbatim>\<open>list(book1.set)\<close> gives them\<close>
  "citify sub shuffle [] st = Inr st"
| "citify sub shuffle (word # ws) st =
     (case citify_word sub shuffle word st of
        Inl e \<Rightarrow> Inl e
      | Inr st' \<Rightarrow> citify sub shuffle ws st')"

definition citify_init :: "string \<Rightarrow> Book list \<Rightarrow> 'g \<Rightarrow> 'g citify_state" where
  \<comment> \<open>the state before the loop: lines 188 to 191\<close>
  "citify_init text bs g =
     \<lparr>book1_text = text, done_words = {}, cite_filenames = [], books = bs, rng = g\<rparr>"

definition pick :: "string \<Rightarrow> Book list \<Rightarrow> Book option" where
  \<comment> \<open>the document at which the scan for the word stops\<close>
  "pick word bs = find (\<lambda>b. lower word \<in> wordset b) bs"

section \<open>The substitution for a word\<close>

text \<open>
  The word is pasted into the pattern as it is, so it is read as a regular expression.
  The model covers the words in which every character stands for itself, and the dot,
  which stands for any character but the newline; for such a word a match at a position
  has one possible extent. A word with another special character, or the empty word,
  is outside the model (\<open>NotModelled\<close>): Python raises for some of them (an unbalanced
  parenthesis, a repeat of nothing) and gives them their meaning as a pattern for the
  others.
\<close>

definition re_special :: "char \<Rightarrow> bool" where
  "re_special c = (c \<in> set ''.^$*+?{}[]|()'' \<or> c = CHR 0x5C)"

definition simple_pattern :: "string \<Rightarrow> bool" where
  "simple_pattern w = (w \<noteq> [] \<and> list_all (\<lambda>c. c = CHR ''.'' \<or> \<not> re_special c) w)"

definition atom_matches :: "char \<Rightarrow> char \<Rightarrow> bool" where
  \<comment> \<open>one character of the pattern against one of the text, ignoring case\<close>
  "atom_matches p c = (if p = CHR ''.'' then c \<noteq> CHR 0x0A else lower_char c = lower_char p)"

fun match_atoms :: "string \<Rightarrow> string \<Rightarrow> bool" where
  "match_atoms [] t = True"
| "match_atoms (p # ps) [] = False"
| "match_atoms (p # ps) (c # cs) = (atom_matches p c \<and> match_atoms ps cs)"

definition word_opt :: "char option \<Rightarrow> bool" where
  \<comment> \<open>outside the text counts as a non-word character\<close>
  "word_opt c = (case c of None \<Rightarrow> False | Some x \<Rightarrow> is_word_char x)"

definition boundary :: "char option \<Rightarrow> char option \<Rightarrow> bool" where
  \<comment> \<open>\<^verbatim>\<open>\b\<close> between two neighbours\<close>
  "boundary a b = (word_opt a \<noteq> word_opt b)"

definition head_opt :: "string \<Rightarrow> char option" where
  "head_opt t = (case t of [] \<Rightarrow> None | c # _ \<Rightarrow> Some c)"

definition last_opt :: "string \<Rightarrow> char option" where
  "last_opt t = (if t = [] then None else Some (last t))"

definition match_here :: "string \<Rightarrow> char option \<Rightarrow> string \<Rightarrow> bool" where
  \<comment> \<open>the pattern \<^verbatim>\<open>\b(w)\b\<close> matches at the front of \<open>t\<close>, which follows \<open>prev\<close>\<close>
  "match_here w prev t =
     (boundary prev (head_opt t) \<and> match_atoms w t
      \<and> boundary (last_opt (take (length w) t)) (head_opt (drop (length w) t)))"

function re_sub_scan :: "string \<Rightarrow> string \<Rightarrow> char option \<Rightarrow> string \<Rightarrow> string" where
  \<comment> \<open>the leftmost matches, left to right, none overlapping; each is followed by the
      marker\<close>
  "re_sub_scan w marker prev t =
     (if t = [] then []
      else if w \<noteq> [] \<and> match_here w prev t
      then take (length w) t @ marker
             @ re_sub_scan w marker (last_opt (take (length w) t)) (drop (length w) t)
      else hd t # re_sub_scan w marker (Some (hd t)) (tl t))"
  by pat_completeness auto
termination
  by (relation "measure (\<lambda>(w, marker, prev, t). length t)") auto

declare re_sub_scan.simps [simp del]

definition marker :: "nat \<Rightarrow> string" where
  "marker n = ''REF'' @ show_nat n @ ''REF''"

definition re_sub_word :: re_sub where
  "re_sub_word w n t =
     (if simple_pattern w then Inr (re_sub_scan w (marker n) None t) else Inl NotModelled)"

section \<open>From markers to tags\<close>

fun strip_prefix :: "string \<Rightarrow> string \<Rightarrow> string option" where
  "strip_prefix [] t = Some t"
| "strip_prefix (p # ps) [] = None"
| "strip_prefix (p # ps) (c # cs) = (if p = c then strip_prefix ps cs else None)"

definition match_sentinel :: "string \<Rightarrow> (string \<times> string) option" where
  \<comment> \<open>\<^verbatim>\<open>REF(\d+)REF\<close> at the front of \<open>t\<close>: the digits and what follows the match.
      The digits are taken greedily; giving one back cannot help, as R is no digit.\<close>
  "match_sentinel t =
     (case strip_prefix ''REF'' t of
        None \<Rightarrow> None
      | Some t1 \<Rightarrow>
          (let ds = takeWhile is_digit t1 in
           if ds = [] then None
           else (case strip_prefix ''REF'' (dropWhile is_digit t1) of
                   None \<Rightarrow> None
                 | Some t2 \<Rightarrow> Some (ds, t2))))"

function sub_sentinel :: "string \<Rightarrow> string" where
  \<comment> \<open>\<^verbatim>\<open>re.sub(rf"REF(\d+)REF", rf"<r>\1</r>", book1_text)\<close>: case-sensitive,
      leftmost matches, none overlapping\<close>
  "sub_sentinel t =
     (if t = [] then []
      else (case match_sentinel t of
              Some (ds, r) \<Rightarrow> ''<r>'' @ ds @ ''</r>'' @ sub_sentinel r
            | None \<Rightarrow> hd t # sub_sentinel (tl t)))"
  by pat_completeness auto
termination
proof -
  have len: "length t = length p + length r" if "strip_prefix p t = Some r" for p t r
    using that by (induction p t rule: strip_prefix.induct) (auto split: if_splits)
  have short: "length r < length t" if m: "match_sentinel t = Some (ds, r)" for t ds r
  proof -
    from m obtain t1 where t1: "strip_prefix ''REF'' t = Some t1"
      by (auto simp: match_sentinel_def split: option.splits)
    with m have "strip_prefix ''REF'' (dropWhile is_digit t1) = Some r"
      by (auto simp: match_sentinel_def Let_def split: option.splits if_splits)
    then have "length (dropWhile is_digit t1) = 3 + length r"
      by (auto dest: len)
    moreover have "length (dropWhile is_digit t1) \<le> length t1"
      by (rule length_dropWhile_le)
    moreover from t1 have "length t = 3 + length t1"
      by (auto dest: len)
    ultimately show ?thesis by simp
  qed
  show ?thesis
    by (relation "measure length") (auto dest: short)
qed

declare sub_sentinel.simps [simp del]

fun has_sentinel :: "string \<Rightarrow> bool" where
  \<comment> \<open>some position of the text starts a match of \<^verbatim>\<open>REF\d+REF\<close>\<close>
  "has_sentinel [] = False"
| "has_sentinel (c # cs) = (match_sentinel (c # cs) \<noteq> None \<or> has_sentinel cs)"

section \<open>Rendering\<close>

fun join :: "string \<Rightarrow> string list \<Rightarrow> string" where
  \<comment> \<open>\<^verbatim>\<open>sep.join(xs)\<close>\<close>
  "join sep [] = []"
| "join sep [x] = x"
| "join sep (x # y # ys) = x @ sep @ join sep (y # ys)"

definition nl :: string where
  "nl = [CHR 0x0A]"

definition dq :: string where
  "dq = [CHR 0x22]"

definition first_author :: "metadata \<Rightarrow> string \<Rightarrow> error + string" where
  \<comment> \<open>lines 233 to 236\<close>
  "first_author md f =
     (case lookup md f ''Author-FN'' of
        Inl e \<Rightarrow> Inl e
      | Inr fn \<Rightarrow>
          (case strip_value fn of
             Inl e \<Rightarrow> Inl e
           | Inr a \<Rightarrow>
               (case lookup md f ''Author-LN'' of
                  Inl e \<Rightarrow> Inl e
                | Inr ln \<Rightarrow>
                    (case strip_value ln of
                       Inl e \<Rightarrow> Inl e
                     | Inr b \<Rightarrow> Inr (a @ '' '' @ b)))))"

definition last_item :: "string list \<Rightarrow> error + string" where
  \<comment> \<open>\<^verbatim>\<open>coauthors[-1]\<close>\<close>
  "last_item xs = (if xs = [] then Inl IndexError else Inr (last xs))"

definition header :: "string option \<Rightarrow> string \<Rightarrow> string list \<Rightarrow> error + string" where
  \<comment> \<open>the first string written to \<^verbatim>\<open>output.html\<close>\<close>
  "header title author coauthors =
     (case last_item coauthors of
        Inl e \<Rightarrow> Inl e
      | Inr l \<Rightarrow>
          Inr (nl @ ''<title>'' @ format_value title @ '' by '' @ author @ '' and ''
                 @ show_nat (length coauthors) @ '' Others</title>'' @ nl
               @ ''<link rel='' @ dq @ ''stylesheet'' @ dq @ '' href='' @ dq @ ''style.css'' @ dq
                 @ ''>'' @ nl
               @ ''<center id='' @ dq @ ''top'' @ dq @ ''>'' @ nl
               @ ''<h1><i>'' @ format_value title @ ''</i></h1>'' @ nl
               @ ''<h3>by</h3>'' @ nl
               @ ''<h2>'' @ author @ ''</h2>'' @ nl
               @ ''<h3>and</h3>'' @ nl
               @ ''<p>'' @ join '', '' (butlast coauthors) @ '' and '' @ l @ nl
               @ ''<p>Jump to <a href='' @ dq @ ''#references'' @ dq @ ''>references</a>'' @ nl
               @ ''</center>'' @ nl
               @ ''<pre>'' @ nl))"

definition footer :: "string \<Rightarrow> string" where
  \<comment> \<open>the last string written\<close>
  "footer cite_list =
     nl @ nl @ ''<h1 id='' @ dq @ ''references'' @ dq @ ''>References</h1>'' @ nl
     @ cite_list @ nl
     @ ''</pre>'' @ nl
     @ ''<p><a href='' @ dq @ ''#top'' @ dq @ ''>Back to top</a>'' @ nl"

definition write_output ::
  "(string set \<Rightarrow> string list) \<Rightarrow> metadata \<Rightarrow> string \<Rightarrow> string \<Rightarrow> string list \<Rightarrow> error + string" where
  \<comment> \<open>lines 229 to 267 of \<^verbatim>\<open>main\<close>: the content of \<^verbatim>\<open>output.html\<close>, or the
      error that ends the run\<close>
  "write_output list_of md book1_filename text cites =
     (let body = sub_sentinel text in
      case lookup md book1_filename ''Title'' of
        Inl e \<Rightarrow> Inl e
      | Inr title \<Rightarrow>
          (case first_author md book1_filename of
             Inl e \<Rightarrow> Inl e
           | Inr author \<Rightarrow>
               (case get_coauthors list_of cites md of
                  Inl e \<Rightarrow> Inl e
                | Inr coauthors \<Rightarrow>
                    (case make_cites cites md of
                       Inl e \<Rightarrow> Inl e
                     | Inr (lines, printed) \<Rightarrow>
                         (case header title author coauthors of
                            Inl e \<Rightarrow> Inl e
                          | Inr h \<Rightarrow> Inr (h @ body @ footer (join nl lines)))))))"

section \<open>Loading the corpus\<close>

datatype cache_file = NoFile | Pickled "Book list" | Corrupt

definition load_cache :: "cache_file \<Rightarrow> error + Book list option" where
  \<comment> \<open>\<^verbatim>\<open>None\<close> when there is no file; unpickling a damaged file raises\<close>
  "load_cache c =
     (case c of NoFile \<Rightarrow> Inr None | Pickled bs \<Rightarrow> Inr (Some bs) | Corrupt \<Rightarrow> Inl UnpicklingError)"

definition recursive_find ::
  "(string \<Rightarrow> (string \<times> string list) list) \<Rightarrow> (string \<Rightarrow> string \<Rightarrow> bool) \<Rightarrow> string \<Rightarrow> string list" where
  \<comment> \<open>\<open>walk head\<close> lists the directories under \<open>head\<close> with their file names
      (\<^verbatim>\<open>os.walk\<close>), \<open>fnmatch pattern name\<close> is the shell-style match; both are
      parameters\<close>
  "recursive_find walk fnmatch inspec =
     (let (head, tail) = os_path_split inspec;
          head = (if length head = 0 then ''.'' else head)
      in concat (map (\<lambda>(root, filenames). map (os_path_join root) (filter (fnmatch tail) filenames))
                   (walk head)))"

fun read_books :: "(string \<Rightarrow> string list) \<Rightarrow> files \<Rightarrow> string list \<Rightarrow> error + Book list" where
  \<comment> \<open>\<^verbatim>\<open>[Book(file) for file in files]\<close>\<close>
  "read_books tok fs [] = Inr []"
| "read_books tok fs (f # rest) =
     (case Book_init tok fs f of
        Inl e \<Rightarrow> Inl e
      | Inr b \<Rightarrow> (case read_books tok fs rest of Inl e \<Rightarrow> Inl e | Inr bs \<Rightarrow> Inr (b # bs)))"

definition falsy :: "Book list option \<Rightarrow> bool" where
  \<comment> \<open>\<^verbatim>\<open>not books\<close>: \<^verbatim>\<open>None\<close> and the empty list\<close>
  "falsy bs = (case bs of None \<Rightarrow> True | Some xs \<Rightarrow> xs = [])"

definition load_books ::
  "(string \<Rightarrow> string list) \<Rightarrow> (string \<Rightarrow> (string \<times> string list) list) \<Rightarrow> (string \<Rightarrow> string \<Rightarrow> bool)
   \<Rightarrow> ('g \<Rightarrow> string list \<Rightarrow> nat \<Rightarrow> string list \<times> 'g) \<Rightarrow> files \<Rightarrow> cache_file
   \<Rightarrow> string \<Rightarrow> int \<Rightarrow> bool \<Rightarrow> 'g \<Rightarrow> error + (Book list \<times> cache_file \<times> 'g)" where
  \<comment> \<open>lines 176 to 185: the corpus, the cache file afterwards and the generator;
      \<open>sample g files k\<close> is \<^verbatim>\<open>random.sample(files, k)\<close>\<close>
  "load_books tok walk fnmatch sample fs cache inspec total_books use_cache g =
     (case (if use_cache then load_cache cache else Inr None) of
        Inl e \<Rightarrow> Inl e
      | Inr bs \<Rightarrow>
          if falsy bs then
            (let files = recursive_find walk fnmatch inspec;
                 (files', g') =
                   (if total_books > 0
                    then sample g files (nat (min total_books (int (length files))))
                    else (files, g))
             in case read_books tok fs files' of
                  Inl e \<Rightarrow> Inl e
                | Inr new \<Rightarrow> Inr (new, if use_cache then Pickled new else cache, g'))
          else Inr (the bs, cache, g))"

definition main ::
  "(string \<Rightarrow> string list) \<Rightarrow> (string set \<Rightarrow> string list)
   \<Rightarrow> (string \<Rightarrow> (string \<times> string list) list) \<Rightarrow> (string \<Rightarrow> string \<Rightarrow> bool)
   \<Rightarrow> ('g \<Rightarrow> string list \<Rightarrow> nat \<Rightarrow> string list \<times> 'g) \<Rightarrow> 'g shuffle \<Rightarrow> re_sub
   \<Rightarrow> files \<Rightarrow> metadata \<Rightarrow> cache_file \<Rightarrow> string \<Rightarrow> string \<Rightarrow> int \<Rightarrow> bool \<Rightarrow> 'g
   \<Rightarrow> error + (string \<times> cache_file)" where
  \<comment> \<open>\<^verbatim>\<open>main(infile1, inspec, total_books, use_cache)\<close> on the files \<open>fs\<close>, the
      loaded metadata \<open>md\<close> and the cache file: the content of \<^verbatim>\<open>output.html\<close> and
      the cache file afterwards\<close>
  "main tok list_of walk fnmatch sample shuffle sub fs md cache infile1 inspec total_books
        use_cache g =
     (case Book_init tok fs infile1 of
        Inl e \<Rightarrow> Inl e
      | Inr book1 \<Rightarrow>
          (case load_books tok walk fnmatch sample fs cache inspec total_books use_cache g of
             Inl e \<Rightarrow> Inl e
           | Inr (bs, cache', g') \<Rightarrow>
               (case Book_text fs infile1 of
                  Inl e \<Rightarrow> Inl e
                | Inr text \<Rightarrow>
                    (case citify sub shuffle (list_of (wordset book1)) (citify_init text bs g') of
                       Inl e \<Rightarrow> Inl e
                     | Inr st \<Rightarrow>
                         (case write_output list_of md (filename book1) (book1_text st)
                                 (cite_filenames st) of
                            Inl e \<Rightarrow> Inl e
                          | Inr html \<Rightarrow> Inr (html, cache'))))))"

section \<open>Notions for the statements\<close>

definition skipped :: "string \<Rightarrow> 'g citify_state \<Rightarrow> bool" where
  \<comment> \<open>the two \<^verbatim>\<open>continue\<close> tests at the head of the loop body\<close>
  "skipped w st = (lower w \<in> done_words st \<or> CHR ''*'' \<in> set w)"

definition candidates :: "Book list \<Rightarrow> string \<Rightarrow> Book set" where
  \<comment> \<open>the documents of the corpus whose token set contains the lower-cased word\<close>
  "candidates corpus w = {b \<in> set corpus. lower w \<in> wordset b}"

definition unstarred :: "string list \<Rightarrow> string set" where
  \<comment> \<open>the lower-cased words of the list that have no asterisk\<close>
  "unstarred ws = set (map lower (filter (\<lambda>w. CHR ''*'' \<notin> set w) ws))"

fun first_seen :: "'a list \<Rightarrow> 'a list" where
  \<comment> \<open>the distinct elements of a list, each at the place of its first occurrence\<close>
  "first_seen [] = []"
| "first_seen (x # xs) = x # filter (\<lambda>y. y \<noteq> x) (first_seen xs)"

fun stops :: "'g shuffle \<Rightarrow> string list \<Rightarrow> string set \<Rightarrow> Book list \<Rightarrow> 'g \<Rightarrow> string list" where
  \<comment> \<open>a description of a run that leaves out the text and the citation list: the file
      names of the documents at which the scans stop, one for each word that is looked up
      and found, in the order of the iterations; \<open>d\<close>, \<open>bs\<close> and \<open>g\<close> are the set of
      finished words, the corpus and the generator\<close>
  "stops shuffle [] d bs g = []"
| "stops shuffle (w # ws) d bs g =
     (if lower w \<in> d \<or> CHR ''*'' \<in> set w then stops shuffle ws d bs g
      else (case pick w (fst (shuffle g bs)) of None \<Rightarrow> [] | Some b \<Rightarrow> [filename b])
           @ stops shuffle ws (insert (lower w) d) (fst (shuffle g bs)) (snd (shuffle g bs)))"

section \<open>The annotation, run by run\<close>

text \<open>
  A description of the annotated text that does not follow the code: the text is cut into
  its maximal runs of word characters and the characters between them, and \<open>f\<close> says what
  is written after each run. It is compared below with what the loop computes.
\<close>

definition wordy :: "string \<Rightarrow> bool" where
  \<comment> \<open>a non-empty word of word characters only\<close>
  "wordy w = (w \<noteq> [] \<and> list_all is_word_char w)"

function annotate_runs :: "(string \<Rightarrow> string) \<Rightarrow> string \<Rightarrow> string" where
  \<comment> \<open>every maximal run \<open>r\<close> of word characters is followed by \<open>f r\<close>; the other
      characters are copied\<close>
  "annotate_runs f t =
     (if t = [] then []
      else if is_word_char (hd t)
      then takeWhile is_word_char t @ f (takeWhile is_word_char t)
             @ annotate_runs f (dropWhile is_word_char t)
      else hd t # annotate_runs f (tl t))"
  by pat_completeness auto
termination
proof (relation "measure (\<lambda>(f, t). length t)")
  show "wf (measure (\<lambda>(f, t). length t))" by simp
next
  fix f :: "string \<Rightarrow> string" and t :: string
  assume "t \<noteq> []" "is_word_char (hd t)"
  then have "dropWhile is_word_char t = dropWhile is_word_char (tl t)"
    by (cases t) auto
  moreover have "length (dropWhile is_word_char (tl t)) \<le> length (tl t)"
    by (rule length_dropWhile_le)
  ultimately show "((f, dropWhile is_word_char t), (f, t)) \<in> measure (\<lambda>(f, t). length t)"
    using \<open>t \<noteq> []\<close> by (cases t) auto
next
  fix f :: "string \<Rightarrow> string" and t :: string
  assume "t \<noteq> []"
  then show "((f, tl t), (f, t)) \<in> measure (\<lambda>(f, t). length t)" by (cases t) auto
qed

declare annotate_runs.simps [simp del]

definition mark_word :: "string \<Rightarrow> string \<Rightarrow> string \<Rightarrow> string" where
  \<comment> \<open>the marker \<open>m\<close> after the runs that equal the word \<open>w\<close>, ignoring case\<close>
  "mark_word w m r = (if lower r = lower w then m else [])"

definition mark_cited :: "(string \<rightharpoonup> nat) \<Rightarrow> string \<Rightarrow> string" where
  \<comment> \<open>the marker of the number that \<open>num\<close> gives to the lower-cased run, if any\<close>
  "mark_cited num r = (case num (lower r) of None \<Rightarrow> [] | Some n \<Rightarrow> marker n)"

fun occurs :: "string \<Rightarrow> string \<Rightarrow> bool" where
  \<comment> \<open>the word stands somewhere in the text, character for character\<close>
  "occurs w [] = (w = [])"
| "occurs w (c # cs) = (strip_prefix w (c # cs) \<noteq> None \<or> occurs w cs)"

section \<open>Concrete inputs\<close>

text \<open>
  Inputs for concrete runs: a corpus of two documents, a generator that rotates the list,
  a tokenizer that returns the maximal runs of word characters, a few files, a metadata
  store that knows one of the two documents, a directory listing, and the enumeration of
  a set in sorted order.
\<close>

definition example_corpus :: "Book list" where
  "example_corpus =
     [\<lparr>fullpath = ''PG2003-08/etext00/a.txt'', filename = ''a.txt'',
        wordset = {''whale'', ''sea''}\<rparr>,
      \<lparr>fullpath = ''PG2003-08/etext01/b.txt'', filename = ''b.txt'',
        wordset = {''sea'', ''the''}\<rparr>]"

definition rotate_shuffle :: "nat shuffle" where
  "rotate_shuffle g bs = (rotate g bs, Suc g)"

fun runs_from :: "string \<Rightarrow> string \<Rightarrow> string list" where
  "runs_from acc [] = (if acc = [] then [] else [rev acc])"
| "runs_from acc (c # cs) =
     (if is_word_char c then runs_from (c # acc) cs
      else (if acc = [] then [] else [rev acc]) @ runs_from [] cs)"

definition example_tok :: "string \<Rightarrow> string list" where
  "example_tok t = runs_from [] t"

definition example_files :: files where
  "example_files = [''moby.txt'' \<mapsto> ''The whale'', ''PG2003-08/etext00/a.txt'' \<mapsto> ''whale sea'']"

definition example_final :: "nat citify_state" where
  "example_final =
     \<lparr>book1_text = ''TheREF1REF whaleREF2REF'', done_words = {''whale'', ''the''},
      cite_filenames = [''b.txt'', ''a.txt''], books = rev example_corpus, rng = 3\<rparr>"

definition example_metadata :: metadata where
  "example_metadata =
     [''moby.txt'' \<mapsto> [''Title'' \<mapsto> Some ''Moby Dick'', ''Subtitle'' \<mapsto> Some [],
                       ''Author-FN'' \<mapsto> Some ''Herman'', ''Author-LN'' \<mapsto> Some ''Melville''],
      ''a.txt'' \<mapsto> [''Title'' \<mapsto> Some ''Kidnapped'', ''Subtitle'' \<mapsto> Some [],
                    ''Author-FN'' \<mapsto> Some ''Robert Louis'', ''Author-LN'' \<mapsto> Some ''Stevenson'']]"

definition example_walk :: "string \<Rightarrow> (string \<times> string list) list" where
  "example_walk head = [(head, []), (head @ ''/etext00'', [''a.txt'', ''index.htm''])]"

definition example_fnmatch :: "string \<Rightarrow> string \<Rightarrow> bool" where
  "example_fnmatch pat name = (pat = ''*.txt'' \<and> drop (length name - 4) name = ''.txt'')"

definition example_sample :: "nat \<Rightarrow> string list \<Rightarrow> nat \<Rightarrow> string list \<times> nat" where
  "example_sample g files k = (take k (rotate g files), Suc g)"

definition example_list_of :: "string set \<Rightarrow> string list" where
  "example_list_of = sorted_list_of_set"

definition bad_files :: files where
  "bad_files = [''PG2003-08/etext03/vbgle11a.txt'' \<mapsto> [CHR ''a'', CHR 0x81, CHR ''b'']]"

definition sea_final :: "nat \<Rightarrow> nat citify_state" where
  "sea_final g =
     \<lparr>book1_text = ''The seaREF1REF'', done_words = {''sea''},
      cite_filenames = [filename (hd (rotate g example_corpus))],
      books = rotate g example_corpus, rng = Suc g\<rparr>"

definition hyphen_corpus :: "Book list" where
  "hyphen_corpus =
     [\<lparr>fullpath = ''PG2003-08/etext00/a.txt'', filename = ''a.txt'', wordset = {''new''}\<rparr>]"

section \<open>Properties\<close>

lemma code_less_256: "code c < 256"
  unfolding code_def by (metis of_char_mod_256 mod_less_divisor zero_less_numeral)

lemma code_char_of: "n < 256 \<Longrightarrow> code (char_of n) = n"
  unfolding code_def by simp

lemma lower_char_idem: "lower_char (lower_char c) = lower_char c"
  using code_less_256 [of c] unfolding lower_char_def Let_def
  by (auto simp: code_char_of)

subsection \<open>Markers and tags\<close>

lemma strip_prefix_Some: "strip_prefix p t = Some r \<longleftrightarrow> t = p @ r"
  by (induction p t rule: strip_prefix.induct) auto

lemma not_digit_R: "\<not> is_digit CHR ''R''"
  by (simp add: is_digit_def code_def)

lemma not_digit_lt: "\<not> is_digit CHR ''<''"
  by (simp add: is_digit_def code_def)

lemma match_sentinel_SomeD:
  assumes "match_sentinel t = Some (ds, r)"
  shows "t = ''REF'' @ ds @ ''REF'' @ r \<and> ds \<noteq> [] \<and> (\<forall>c \<in> set ds. is_digit c)"
proof -
  from assms obtain t1 where t1: "strip_prefix ''REF'' t = Some t1"
    by (auto simp: match_sentinel_def split: option.splits)
  with assms have ds: "ds = takeWhile is_digit t1" "ds \<noteq> []"
    and r: "strip_prefix ''REF'' (dropWhile is_digit t1) = Some r"
    by (auto simp: match_sentinel_def Let_def split: option.splits if_splits)
  from r have "dropWhile is_digit t1 = ''REF'' @ r"
    by (simp only: strip_prefix_Some)
  then have "t1 = ds @ ''REF'' @ r"
    using takeWhile_dropWhile_id [of is_digit t1] ds(1) by simp
  moreover from t1 have "t = ''REF'' @ t1" by (simp only: strip_prefix_Some)
  moreover have "\<forall>c \<in> set ds. is_digit c"
    unfolding ds(1) by (auto dest: set_takeWhileD)
  ultimately show ?thesis using ds(2) by simp
qed

lemma match_sentinel_SomeI:
  assumes "ds \<noteq> []" "\<forall>c \<in> set ds. is_digit c"
  shows "match_sentinel (''REF'' @ ds @ ''REF'' @ r) = Some (ds, r)"
proof -
  have tw: "takeWhile is_digit (ds @ ''REF'' @ r) = ds"
    using assms(2) not_digit_R by (simp add: takeWhile_append2)
  have dw: "dropWhile is_digit (ds @ ''REF'' @ r) = ''REF'' @ r"
    using assms(2) not_digit_R by (simp add: dropWhile_append2)
  show ?thesis
    using tw dw assms(1) by (simp add: match_sentinel_def Let_def)
qed

lemma match_sentinel_head: "c \<noteq> CHR ''R'' \<Longrightarrow> match_sentinel (c # cs) = None"
  by (simp add: match_sentinel_def)

lemma has_sentinel_skip:
  "\<forall>c \<in> set p. c \<noteq> CHR ''R'' \<Longrightarrow> has_sentinel (p @ s) = has_sentinel s"
  by (induction p) (simp_all add: match_sentinel_head)

lemma sub_sentinel_copy:
  "sub_sentinel t = p @ out \<Longrightarrow> CHR ''<'' \<notin> set p \<Longrightarrow> \<exists>t'. t = p @ t' \<and> out = sub_sentinel t'"
proof (induction p arbitrary: t)
  case Nil
  then show ?case by simp
next
  case (Cons x p)
  from Cons.prems have ne: "t \<noteq> []"
    by (auto simp: sub_sentinel.simps [of t])
  have nm: "match_sentinel t = None"
  proof (rule ccontr)
    assume "match_sentinel t \<noteq> None"
    then obtain ds r where "match_sentinel t = Some (ds, r)" by auto
    with ne have "sub_sentinel t = ''<r>'' @ ds @ ''</r>'' @ sub_sentinel r"
      by (simp add: sub_sentinel.simps [of t])
    with Cons.prems show False by simp
  qed
  with ne have "sub_sentinel t = hd t # sub_sentinel (tl t)"
    by (simp add: sub_sentinel.simps [of t])
  with Cons.prems have x: "hd t = x" and rest: "sub_sentinel (tl t) = p @ out"
    by simp_all
  from Cons.IH [OF rest] Cons.prems(2) obtain t' where "tl t = p @ t'" "out = sub_sentinel t'"
    by auto
  with x ne show ?case by (cases t) auto
qed

lemma digits_no_R: "\<forall>c \<in> set ds. is_digit c \<Longrightarrow> \<forall>c \<in> set ds. c \<noteq> CHR ''R''"
  using not_digit_R by auto

lemma digits_no_lt: "\<forall>c \<in> set ds. is_digit c \<Longrightarrow> CHR ''<'' \<notin> set ds"
  using not_digit_lt by auto

text \<open>
  Claim C3. Whatever the text is after the substitutions for the words, the body that
  the final substitution produces has no position at which \<^verbatim>\<open>REF\d+REF\<close> matches:
  every marker has become a tag, and no tag or junction forms a new marker.
\<close>

theorem no_sentinel_left: "\<not> has_sentinel (sub_sentinel t)"
proof (induction t rule: sub_sentinel.induct)
  case (1 t)
  show ?case
  proof (cases "t = []")
    case True
    then show ?thesis by (simp add: sub_sentinel.simps [of "[]"])
  next
    case ne: False
    show ?thesis
    proof (cases "match_sentinel t")
      case None
      have out: "sub_sentinel t = hd t # sub_sentinel (tl t)"
        using ne None by (simp add: sub_sentinel.simps [of t])
      have tail: "\<not> has_sentinel (sub_sentinel (tl t))"
        using "1.IH"(1) ne None by simp
      have "match_sentinel (sub_sentinel t) = None"
      proof (rule ccontr)
        assume "match_sentinel (sub_sentinel t) \<noteq> None"
        then obtain ds r where m: "match_sentinel (sub_sentinel t) = Some (ds, r)" by auto
        from match_sentinel_SomeD [OF m]
        have shape: "sub_sentinel t = (''REF'' @ ds @ ''REF'') @ r" and d: "ds \<noteq> []" "\<forall>c \<in> set ds. is_digit c"
          by simp_all
        have "CHR ''<'' \<notin> set (''REF'' @ ds @ ''REF'')"
          using digits_no_lt [OF d(2)] by simp
        from sub_sentinel_copy [OF shape this] obtain t' where "t = ''REF'' @ ds @ ''REF'' @ t'"
          by auto
        then have "match_sentinel t = Some (ds, t')"
          using match_sentinel_SomeI [OF d] by simp
        with None show False by simp
      qed
      with out tail show ?thesis by simp
    next
      case (Some a)
      obtain ds r where a: "a = (ds, r)" by (cases a)
      have out: "sub_sentinel t = (''<r>'' @ ds @ ''</r>'') @ sub_sentinel r"
        using ne Some a by (simp add: sub_sentinel.simps [of t])
      have rest: "\<not> has_sentinel (sub_sentinel r)"
        using "1.IH"(2) [OF ne Some [unfolded a] refl] .
      have "\<forall>c \<in> set ds. is_digit c"
        using match_sentinel_SomeD Some a by blast
      then have "\<forall>c \<in> set (''<r>'' @ ds @ ''</r>''). c \<noteq> CHR ''R''"
        using digits_no_R by auto
      from has_sentinel_skip [OF this] rest out show ?thesis by simp
    qed
  qed
qed

theorem no_sentinel_left_witness:
  "sub_sentinel ''whaleREF1REF, REF2REF3REF'' = ''whale<r>1</r>, <r>2</r>3REF''
   \<and> \<not> has_sentinel ''whale<r>1</r>, <r>2</r>3REF''"
proof -
  have out: "sub_sentinel ''whaleREF1REF, REF2REF3REF'' = ''whale<r>1</r>, <r>2</r>3REF''"
    by code_simp
  from no_sentinel_left [of "''whaleREF1REF, REF2REF3REF''"] show ?thesis
    unfolding out by simp
qed

subsection \<open>The citation list\<close>

lemma list_index_first:
  "x \<in> set xs \<Longrightarrow> \<exists>i. list_index xs x = Inr i \<and> i < length xs \<and> xs ! i = x \<and> x \<notin> set (take i xs)"
  by (induction xs) auto

lemma list_index_distinct: "distinct xs \<Longrightarrow> k < length xs \<Longrightarrow> list_index xs (xs ! k) = Inr k"
proof (induction xs arbitrary: k)
  case Nil
  then show ?case by simp
next
  case (Cons y ys)
  show ?case
  proof (cases k)
    case 0
    then show ?thesis by simp
  next
    case (Suc j)
    with Cons.prems have "ys ! j \<in> set ys" "list_index ys (ys ! j) = Inr j"
      using Cons.IH [of j] by auto
    with Cons.prems Suc show ?thesis by auto
  qed
qed

lemma list_index_append_new: "x \<notin> set xs \<Longrightarrow> list_index (xs @ [x]) x = Inr (length xs)"
  by (induction xs) auto

lemma add_cite_distinct: "distinct cites \<Longrightarrow> distinct (add_cite cites f)"
  by (simp add: add_cite_def)

lemma add_cite_prefix: "prefix cites (add_cite cites f)"
  by (simp add: add_cite_def)

lemma add_cite_length: "length (add_cite cites f) \<le> length cites + 1"
  by (simp add: add_cite_def)

lemma add_cite_member: "f \<in> set (add_cite cites f)"
  by (simp add: add_cite_def)

lemma cite_number_new: "f \<notin> set cites \<Longrightarrow> cite_number cites f = Inr (length cites + 1)"
  by (simp add: cite_number_def add_cite_def list_index_append_new)

lemma cite_number_old:
  "distinct cites \<Longrightarrow> k < length cites \<Longrightarrow> cite_number cites (cites ! k) = Inr (k + 1)"
  by (simp add: cite_number_def add_cite_def list_index_distinct)

lemma cite_number_nth:
  "\<exists>n. cite_number cites f = Inr n \<and> 0 < n \<and> n \<le> length (add_cite cites f)
       \<and> add_cite cites f ! (n - 1) = f"
  using list_index_first [OF add_cite_member [of f cites]]
  by (auto simp: cite_number_def)

lemma cite_word_Inr:
  assumes "cite_word sub w b st = Inr st'"
  shows "cite_filenames st' = add_cite (cite_filenames st) (filename b)"
    and "done_words st' = done_words st" and "books st' = books st" and "rng st' = rng st"
    and "\<exists>n. cite_number (cite_filenames st) (filename b) = Inr n
             \<and> sub w n (book1_text st) = Inr (book1_text st')"
  using assms by (auto simp: cite_word_def split: sum.splits)

lemma scan_books_pick:
  "scan_books sub w bs st = (case pick w bs of None \<Rightarrow> Inr st | Some b \<Rightarrow> cite_word sub w b st)"
  by (induction bs) (auto simp: pick_def)

lemma pick_Some: "pick w bs = Some b \<Longrightarrow> b \<in> set bs \<and> lower w \<in> wordset b"
  by (auto simp: pick_def find_Some_iff)

lemma pick_None: "pick w bs = None \<longleftrightarrow> (\<forall>b \<in> set bs. lower w \<notin> wordset b)"
  by (auto simp: pick_def find_None_iff)

lemma citify_word_skipped: "skipped w st \<Longrightarrow> citify_word sub sh w st = Inr st"
  by (auto simp: skipped_def citify_word_def)

lemma citify_word_processed:
  assumes "\<not> skipped w st"
  shows "citify_word sub sh w st =
           scan_books sub w (fst (sh (rng st) (books st)))
             (st\<lparr>done_words := insert (lower w) (done_words st),
                 books := fst (sh (rng st) (books st)), rng := snd (sh (rng st) (books st))\<rparr>)"
  using assms by (auto simp: skipped_def citify_word_def split: prod.splits)

lemma citify_word_cases [consumes 1, case_names skip miss hit]:
  assumes "citify_word sub sh w st = Inr st'"
  obtains "skipped w st" "st' = st"
  | "\<not> skipped w st" "pick w (fst (sh (rng st) (books st))) = None"
      "st' = st\<lparr>done_words := insert (lower w) (done_words st),
                 books := fst (sh (rng st) (books st)), rng := snd (sh (rng st) (books st))\<rparr>"
  | b n where "\<not> skipped w st" "pick w (fst (sh (rng st) (books st))) = Some b"
      "cite_number (cite_filenames st) (filename b) = Inr n"
      "sub w n (book1_text st) = Inr (book1_text st')"
      "cite_filenames st' = add_cite (cite_filenames st) (filename b)"
      "done_words st' = insert (lower w) (done_words st)"
      "books st' = fst (sh (rng st) (books st))"
      "rng st' = snd (sh (rng st) (books st))"
proof (cases "skipped w st")
  case True
  from assms have "st' = st"
    unfolding citify_word_skipped [OF True] by simp
  with True that(1) show ?thesis by blast
next
  case False
  let ?bs = "fst (sh (rng st) (books st))"
  let ?st = "st\<lparr>done_words := insert (lower w) (done_words st),
                 books := ?bs, rng := snd (sh (rng st) (books st))\<rparr>"
  show ?thesis
  proof (cases "pick w ?bs")
    case None
    from assms have "st' = ?st"
      unfolding citify_word_processed [OF False] scan_books_pick None by simp
    with that(2) False None show ?thesis by blast
  next
    case (Some b)
    from assms have cw: "cite_word sub w b ?st = Inr st'"
      unfolding citify_word_processed [OF False] scan_books_pick Some by simp
    from cite_word_Inr(5) [OF cw] obtain n where
      "cite_number (cite_filenames st) (filename b) = Inr n"
      "sub w n (book1_text st) = Inr (book1_text st')"
      by auto
    with that(3) [OF False Some] cite_word_Inr(1-4) [OF cw] show ?thesis by simp
  qed
qed

lemma citify_word_cites:
  assumes "citify_word sub sh w st = Inr st'"
  shows "cite_filenames st' = cite_filenames st
         \<or> (\<exists>f. cite_filenames st' = add_cite (cite_filenames st) f)"
  using assms by (cases rule: citify_word_cases) auto

lemma citify_word_distinct:
  "citify_word sub sh w st = Inr st' \<Longrightarrow> distinct (cite_filenames st) \<Longrightarrow> distinct (cite_filenames st')"
  using citify_word_cites add_cite_distinct by metis

lemma citify_word_prefix:
  "citify_word sub sh w st = Inr st' \<Longrightarrow> prefix (cite_filenames st) (cite_filenames st')"
  using citify_word_cites add_cite_prefix by (metis prefix_order.order_refl)

lemma citify_word_grows:
  "citify_word sub sh w st = Inr st' \<Longrightarrow> length (cite_filenames st') \<le> length (cite_filenames st) + 1"
  using citify_word_cites add_cite_length by (metis le_add1)

lemma citify_append:
  "citify sub sh (xs @ ys) st =
     (case citify sub sh xs st of Inl e \<Rightarrow> Inl e | Inr st' \<Rightarrow> citify sub sh ys st')"
  by (induction xs arbitrary: st) (auto split: sum.splits)

lemma citify_distinct:
  "citify sub sh ws st = Inr st' \<Longrightarrow> distinct (cite_filenames st) \<Longrightarrow> distinct (cite_filenames st')"
  by (induction ws arbitrary: st) (auto split: sum.splits dest: citify_word_distinct)

lemma citify_prefix:
  "citify sub sh ws st = Inr st' \<Longrightarrow> prefix (cite_filenames st) (cite_filenames st')"
proof (induction ws arbitrary: st)
  case Nil
  then show ?case by simp
next
  case (Cons w ws)
  then obtain st1 where 1: "citify_word sub sh w st = Inr st1" and 2: "citify sub sh ws st1 = Inr st'"
    by (auto split: sum.splits)
  from citify_word_prefix [OF 1] Cons.IH [OF 2] show ?case
    by (rule prefix_order.trans)
qed

lemma example_run:
  "citify re_sub_word rotate_shuffle [''the'', ''whale''] (citify_init ''The whale'' example_corpus 1)
   = Inr example_final"
  by code_simp

lemma example_book:
  "Book_init example_tok example_files ''moby.txt''
   = Inr \<lparr>fullpath = ''moby.txt'', filename = ''moby.txt'', wordset = {''the'', ''whale''}\<rparr>"
  by code_simp

lemma foldl_add_cite:
  "foldl add_cite acc xs = acc @ filter (\<lambda>y. y \<notin> set acc) (first_seen xs)"
proof (induction xs arbitrary: acc)
  case Nil
  then show ?case by simp
next
  case (Cons x xs)
  show ?case
  proof (cases "x \<in> set acc")
    case True
    have "filter (\<lambda>y. y \<notin> set acc) (filter (\<lambda>y. y \<noteq> x) (first_seen xs))
          = filter (\<lambda>y. y \<notin> set acc) (first_seen xs)"
      using True by (auto simp: filter_filter intro: filter_cong)
    with True Cons.IH [of acc] show ?thesis by (simp add: add_cite_def)
  next
    case False
    have "filter (\<lambda>y. y \<notin> set (acc @ [x])) (first_seen xs)
          = filter (\<lambda>y. y \<notin> set acc) (filter (\<lambda>y. y \<noteq> x) (first_seen xs))"
      by (auto simp: filter_filter intro: filter_cong)
    with False Cons.IH [of "acc @ [x]"] show ?thesis by (simp add: add_cite_def)
  qed
qed

lemma citify_stops:
  "citify sub sh ws st = Inr st' \<Longrightarrow>
   cite_filenames st'
   = foldl add_cite (cite_filenames st) (stops sh ws (done_words st) (books st) (rng st))"
proof (induction ws arbitrary: st)
  case Nil
  then show ?case by simp
next
  case (Cons w ws)
  then obtain st1 where 1: "citify_word sub sh w st = Inr st1" and 2: "citify sub sh ws st1 = Inr st'"
    by (auto split: sum.splits)
  note ih = Cons.IH [OF 2]
  from 1 show ?case
  proof (cases rule: citify_word_cases)
    case skip
    with ih show ?thesis by (simp add: skipped_def)
  next
    case miss
    with ih show ?thesis by (simp add: skipped_def)
  next
    case (hit b n)
    with ih show ?thesis by (simp add: skipped_def)
  qed
qed

lemma cite_number_cases:
  assumes "cite_number cites f = Inr n"
  shows "if f \<in> set cites then add_cite cites f = cites
         else add_cite cites f = cites @ [f] \<and> n = length cites + 1"
  using assms cite_number_new [of f cites] by (auto simp: add_cite_def)

text \<open>
  Claim C2. After every iteration of the loop over the words (after any prefix \<open>pre\<close> of
  the word list of a run that completes) the citation list is the list of the file names of
  the documents at which the scans have stopped, each once, in the order of first
  discovery. It has no repetition; the name at position \<open>k\<close> is the one that gets the
  number \<open>k + 1\<close>, and it is a prefix of every later list. When the next word is looked
  up and its scan stops at a document, the substitution is made with the number \<open>n\<close> of
  that document's file name: the name stands at position \<open>n - 1\<close> from then on; a name
  seen before leaves the list as it is, and a new name is appended and gets the next
  number, the length of the list so far plus one.
\<close>

theorem citation_list_invariant:
  assumes "citify sub shuffle (pre @ post) (citify_init text corpus g) = Inr final"
  shows "\<exists>st. citify sub shuffle pre (citify_init text corpus g) = Inr st
            \<and> cite_filenames st = first_seen (stops shuffle pre {} corpus g)
            \<and> distinct (cite_filenames st)
            \<and> (\<forall>k < length (cite_filenames st).
                  cite_number (cite_filenames st) (cite_filenames st ! k) = Inr (k + 1))
            \<and> (\<forall>f. f \<notin> set (cite_filenames st) \<longrightarrow>
                  cite_number (cite_filenames st) f = Inr (length (cite_filenames st) + 1))
            \<and> prefix (cite_filenames st) (cite_filenames final)
            \<and> (\<forall>w rest b. post = w # rest \<longrightarrow> \<not> skipped w st \<longrightarrow>
                  pick w (fst (shuffle (rng st) (books st))) = Some b \<longrightarrow>
                  (\<exists>st' n. citify_word sub shuffle w st = Inr st'
                      \<and> sub w n (book1_text st) = Inr (book1_text st')
                      \<and> 0 < n \<and> n \<le> length (cite_filenames st')
                      \<and> cite_filenames st' ! (n - 1) = filename b
                      \<and> cite_filenames final ! (n - 1) = filename b
                      \<and> (if filename b \<in> set (cite_filenames st)
                         then cite_filenames st' = cite_filenames st
                         else cite_filenames st' = cite_filenames st @ [filename b]
                              \<and> n = length (cite_filenames st) + 1)))"
proof -
  let ?init = "citify_init text corpus g"
  from assms obtain st where st: "citify sub shuffle pre ?init = Inr st"
    and fin: "citify sub shuffle post st = Inr final"
    by (auto simp: citify_append split: sum.splits)
  have d: "distinct (cite_filenames st)"
    using citify_distinct [OF st] by (simp add: citify_init_def)
  have seen: "cite_filenames st = first_seen (stops shuffle pre {} corpus g)"
    using citify_stops [OF st] by (simp add: citify_init_def foldl_add_cite)
  have step: "\<exists>st' n. citify_word sub shuffle w st = Inr st'
                \<and> sub w n (book1_text st) = Inr (book1_text st')
                \<and> 0 < n \<and> n \<le> length (cite_filenames st')
                \<and> cite_filenames st' ! (n - 1) = filename b
                \<and> cite_filenames final ! (n - 1) = filename b
                \<and> (if filename b \<in> set (cite_filenames st)
                   then cite_filenames st' = cite_filenames st
                   else cite_filenames st' = cite_filenames st @ [filename b]
                        \<and> n = length (cite_filenames st) + 1)"
    if post: "post = w # rest" and ns: "\<not> skipped w st"
      and pk: "pick w (fst (shuffle (rng st) (books st))) = Some b" for w rest b
  proof -
    from fin post obtain st' where s1: "citify_word sub shuffle w st = Inr st'"
      and s2: "citify sub shuffle rest st' = Inr final"
      by (auto split: sum.splits)
    from s1 show ?thesis
    proof (cases rule: citify_word_cases)
      case skip
      with ns show ?thesis by simp
    next
      case miss
      with pk show ?thesis by simp
    next
      case (hit b' n)
      with pk have b: "b' = b" by simp
      from cite_number_nth [of "cite_filenames st" "filename b"] hit(3,5) b
      have n: "0 < n" "n \<le> length (cite_filenames st')" "cite_filenames st' ! (n - 1) = filename b"
        by auto
      from citify_prefix [OF s2] obtain more where "cite_filenames final = cite_filenames st' @ more"
        by (auto simp: prefix_def)
      with n have nf: "cite_filenames final ! (n - 1) = filename b"
        by (auto simp: nth_append)
      from cite_number_cases [of "cite_filenames st" "filename b" n] hit(3,5) b
      have "if filename b \<in> set (cite_filenames st)
            then cite_filenames st' = cite_filenames st
            else cite_filenames st' = cite_filenames st @ [filename b]
                 \<and> n = length (cite_filenames st) + 1"
        by (auto split: if_splits)
      with s1 hit(4) n nf show ?thesis by blast
    qed
  qed
  show ?thesis
    using st seen d citify_prefix [OF fin] step
    by (intro exI [of _ st]) (auto simp: cite_number_old cite_number_new)
qed


theorem citation_list_invariant_witness:
  "\<exists>st. citify re_sub_word rotate_shuffle [''the'']
             (citify_init ''The whale'' example_corpus 1) = Inr st
        \<and> cite_filenames st = first_seen (stops rotate_shuffle [''the''] {} example_corpus 1)
        \<and> cite_filenames st = [''b.txt'']
        \<and> distinct (cite_filenames st)
        \<and> prefix (cite_filenames st) (cite_filenames example_final)"
proof -
  have run: "citify re_sub_word rotate_shuffle ([''the''] @ [''whale''])
               (citify_init ''The whale'' example_corpus 1) = Inr example_final"
    using example_run by simp
  have seen: "first_seen (stops rotate_shuffle [''the''] {} example_corpus 1) = [''b.txt'']"
    by code_simp
  from citation_list_invariant [OF run] seen show ?thesis by auto
qed

subsection \<open>The set of finished words\<close>

lemma lower_idem: "lower (lower w) = lower w"
  by (simp add: lower_def lower_char_idem)

lemma Book_init_lower: "Book_init tok fs path = Inr b \<Longrightarrow> w \<in> wordset b \<Longrightarrow> lower w = w"
  by (auto simp: Book_init_def lower_idem split: sum.splits error.splits)

lemma citify_word_done:
  assumes "citify_word sub sh w st = Inr st'"
  shows "done_words st' = done_words st \<union> unstarred [w]"
  using assms by (cases rule: citify_word_cases) (auto simp: skipped_def unstarred_def)

lemma unstarred_Cons: "unstarred (w # ws) = unstarred [w] \<union> unstarred ws"
  by (auto simp: unstarred_def)

lemma citify_done:
  "citify sub sh ws st = Inr st' \<Longrightarrow> done_words st' = done_words st \<union> unstarred ws"
proof (induction ws arbitrary: st)
  case Nil
  then show ?case by (simp add: unstarred_def)
next
  case (Cons w ws)
  then obtain st1 where 1: "citify_word sub sh w st = Inr st1" and 2: "citify sub sh ws st1 = Inr st'"
    by (auto split: sum.splits)
  from citify_word_done [OF 1] Cons.IH [OF 2] show ?case
    by (subst unstarred_Cons) auto
qed

lemma unstarred_lower: "\<forall>w \<in> set ws. lower w = w \<Longrightarrow> unstarred ws = {w \<in> set ws. CHR ''*'' \<notin> set w}"
  by (induction ws) (auto simp: unstarred_def)

lemma unskipped_in_run:
  assumes "distinct ws" "\<forall>v \<in> set ws. lower v = v" "ws = pre @ w # post"
    and "citify sub sh pre (citify_init t0 corpus g) = Inr st"
  shows "lower w \<notin> done_words st"
proof -
  have "\<forall>v \<in> set pre. lower v = v" using assms(2,3) by auto
  then have "done_words st = {v \<in> set pre. CHR ''*'' \<notin> set v}"
    using citify_done [OF assms(4)] by (simp add: citify_init_def unstarred_lower)
  moreover have "w \<notin> set pre" using assms(1,3) by auto
  moreover have "lower w = w" using assms(2,3) by auto
  ultimately show ?thesis by auto
qed

text \<open>
  Claim C10. The token set of a document holds lower-case words only. Hence, when the
  loop runs over the distinct words of the primary document, the test
  \<^verbatim>\<open>word.lower() in done\<close> is false at every word (whatever came before it), a word
  is skipped exactly when it contains an asterisk, and after the loop \<^verbatim>\<open>done\<close> is the
  token set without the words that contain an asterisk.
\<close>

theorem done_set_exact:
  assumes book: "Book_init tok fs infile1 = Inr book1"
    and ws: "distinct ws" "set ws = wordset book1"
    and run: "citify sub shuffle ws (citify_init text corpus g) = Inr final"
  shows "(\<forall>w \<in> wordset book1. lower w = w)
       \<and> (\<forall>pre w post. ws = pre @ w # post \<longrightarrow>
            (\<exists>st. citify sub shuffle pre (citify_init text corpus g) = Inr st
                  \<and> lower w \<notin> done_words st
                  \<and> (skipped w st \<longleftrightarrow> CHR ''*'' \<in> set w)))
       \<and> done_words final = {w \<in> wordset book1. CHR ''*'' \<notin> set w}"
proof -
  have low: "\<forall>w \<in> wordset book1. lower w = w"
    using Book_init_lower [OF book] by blast
  have guard: "\<exists>st. citify sub shuffle pre (citify_init text corpus g) = Inr st
                  \<and> lower w \<notin> done_words st
                  \<and> (skipped w st \<longleftrightarrow> CHR ''*'' \<in> set w)"
    if split: "ws = pre @ w # post" for pre w post
  proof -
    from run split obtain st where st: "citify sub shuffle pre (citify_init text corpus g) = Inr st"
      by (auto simp: citify_append split: sum.splits)
    have "\<forall>v \<in> set pre. lower v = v" using low ws(2) split by auto
    then have "done_words st = {v \<in> set pre. CHR ''*'' \<notin> set v}"
      using citify_done [OF st] by (simp add: citify_init_def unstarred_lower)
    moreover have "w \<notin> set pre" using ws(1) split by auto
    moreover have "lower w = w" using low ws(2) split by auto
    ultimately have "lower w \<notin> done_words st" by auto
    with st show ?thesis by (auto simp: skipped_def)
  qed
  have "done_words final = unstarred ws"
    using citify_done [OF run] by (simp add: citify_init_def)
  also have "\<dots> = {w \<in> wordset book1. CHR ''*'' \<notin> set w}"
    using low ws(2) by (simp add: unstarred_lower)
  finally show ?thesis using low guard by blast
qed

theorem done_set_exact_witness:
  "done_words example_final = {w \<in> {''the'', ''whale''}. CHR ''*'' \<notin> set w}
   \<and> (\<exists>st. citify re_sub_word rotate_shuffle [''the''] (citify_init ''The whale'' example_corpus 1) = Inr st
          \<and> lower ''whale'' \<notin> done_words st)"
proof -
  have ws: "distinct [''the'', ''whale'']"
    "set [''the'', ''whale'']
     = wordset \<lparr>fullpath = ''moby.txt'', filename = ''moby.txt'', wordset = {''the'', ''whale''}\<rparr>"
    by simp_all
  from done_set_exact [OF example_book ws example_run]
  have "(\<forall>pre w post. [''the'', ''whale''] = pre @ w # post \<longrightarrow>
            (\<exists>st. citify re_sub_word rotate_shuffle pre (citify_init ''The whale'' example_corpus 1) = Inr st
                  \<and> lower w \<notin> done_words st
                  \<and> (skipped w st \<longleftrightarrow> CHR ''*'' \<in> set w)))"
    and d: "done_words example_final = {w \<in> {''the'', ''whale''}. CHR ''*'' \<notin> set w}"
    by simp_all
  from this(1) [rule_format, of "[''the'']" "''whale''" "[]"] d show ?thesis by auto
qed

subsection \<open>The order of the corpus\<close>

lemma citify_word_books:
  assumes "citify_word sub sh w st = Inr st'" "\<forall>g bs. mset (fst (sh g bs)) = mset bs"
  shows "mset (books st') = mset (books st)"
  using assms by (cases rule: citify_word_cases) auto

lemma citify_books:
  assumes "citify sub sh ws st = Inr st'" "\<forall>g bs. mset (fst (sh g bs)) = mset bs"
  shows "mset (books st') = mset (books st)"
  using assms
proof (induction ws arbitrary: st)
  case Nil
  then show ?case by simp
next
  case (Cons w ws)
  then obtain st1 where 1: "citify_word sub sh w st = Inr st1" and 2: "citify sub sh ws st1 = Inr st'"
    by (auto split: sum.splits)
  from citify_word_books [OF 1 Cons.prems(2)] Cons.IH [OF 2 Cons.prems(2)] show ?case by simp
qed

lemma mset_rotate1: "mset (rotate1 xs) = mset xs"
  by (cases xs) simp_all

lemma mset_rotate: "mset (rotate n xs) = mset xs"
  by (induction n) (simp_all add: mset_rotate1)

lemma rotate_shuffle_perm: "\<forall>g bs. mset (fst (rotate_shuffle g bs)) = mset bs"
  by (simp add: rotate_shuffle_def mset_rotate)

lemma pick_candidates:
  assumes "mset bs = mset corpus"
  shows "case pick w bs of None \<Rightarrow> candidates corpus w = {} | Some b \<Rightarrow> b \<in> candidates corpus w"
proof -
  from assms have "set bs = set corpus" by (rule mset_eq_setD)
  then show ?thesis
    by (auto simp: candidates_def pick_None dest: pick_Some split: option.splits)
qed

lemma pick_reachable:
  assumes "b \<in> candidates corpus w"
  shows "\<exists>bs. mset bs = mset corpus \<and> pick w bs = Some b"
proof -
  from assms have b: "b \<in> set corpus" "lower w \<in> wordset b"
    by (auto simp: candidates_def)
  then have "mset (b # remove1 b corpus) = mset corpus" by simp
  moreover have "pick w (b # remove1 b corpus) = Some b"
    using b(2) by (simp add: pick_def)
  ultimately show ?thesis by blast
qed

lemma word_step:
  assumes perm: "\<forall>g bs. mset (fst (shuffle g bs)) = mset bs"
    and ws: "distinct (pre @ w # post)" "\<forall>v \<in> set (pre @ w # post). lower v = v"
    and star: "CHR ''*'' \<notin> set w"
    and run: "citify sub shuffle (pre @ w # post) (citify_init text corpus g) = Inr final"
  shows "\<exists>st st'. citify sub shuffle pre (citify_init text corpus g) = Inr st
           \<and> citify_word sub shuffle w st = Inr st'
           \<and> (if candidates corpus w = {}
              then pick w (fst (shuffle (rng st) (books st))) = None
                   \<and> book1_text st' = book1_text st \<and> cite_filenames st' = cite_filenames st
              else \<exists>b \<in> candidates corpus w. \<exists>n.
                     pick w (fst (shuffle (rng st) (books st))) = Some b
                     \<and> sub w n (book1_text st) = Inr (book1_text st')
                     \<and> 0 < n \<and> n \<le> length (cite_filenames st')
                     \<and> cite_filenames st' ! (n - 1) = filename b
                     \<and> cite_filenames st' = add_cite (cite_filenames st) (filename b)
                     \<and> cite_filenames final ! (n - 1) = filename b)"
proof -
  let ?init = "citify_init text corpus g"
  from run obtain st st' where
    st: "citify sub shuffle pre ?init = Inr st" and
    step: "citify_word sub shuffle w st = Inr st'" and
    fin: "citify sub shuffle post st' = Inr final"
    by (auto simp: citify_append split: sum.splits)
  have ns: "\<not> skipped w st"
    using unskipped_in_run [OF ws refl st] star by (simp add: skipped_def)
  have bs: "mset (fst (shuffle (rng st) (books st))) = mset corpus"
    using citify_books [OF st perm] perm by (simp add: citify_init_def)
  note cand = pick_candidates [OF bs, of w]
  have "if candidates corpus w = {}
        then pick w (fst (shuffle (rng st) (books st))) = None
             \<and> book1_text st' = book1_text st \<and> cite_filenames st' = cite_filenames st
        else \<exists>b \<in> candidates corpus w. \<exists>n.
               pick w (fst (shuffle (rng st) (books st))) = Some b
               \<and> sub w n (book1_text st) = Inr (book1_text st')
               \<and> 0 < n \<and> n \<le> length (cite_filenames st')
               \<and> cite_filenames st' ! (n - 1) = filename b
               \<and> cite_filenames st' = add_cite (cite_filenames st) (filename b)
               \<and> cite_filenames final ! (n - 1) = filename b"
    using step
  proof (cases rule: citify_word_cases)
    case skip
    with ns show ?thesis by simp
  next
    case miss
    with cand show ?thesis by simp
  next
    case (hit b n)
    with cand have b: "b \<in> candidates corpus w" by simp
    from cite_number_nth [of "cite_filenames st" "filename b"] hit(3,5)
    have n: "0 < n" "n \<le> length (cite_filenames st')" "cite_filenames st' ! (n - 1) = filename b"
      by auto
    from citify_prefix [OF fin] obtain more where "cite_filenames final = cite_filenames st' @ more"
      by (auto simp: prefix_def)
    with n have "cite_filenames final ! (n - 1) = filename b"
      by (auto simp: nth_append)
    with b hit(2,4,5) n show ?thesis by auto
  qed
  with st step show ?thesis by blast
qed

text \<open>
  Claim C7. Take two runs on the same text and corpus that complete, with any generator
  states and any order of the distinct lower-case words, and a word \<open>w\<close> without an
  asterisk. The set of its possible sources is fixed: the corpus documents whose token
  set contains the lower-cased word. If the set is empty, neither run cites anything for
  \<open>w\<close>: its iteration leaves the text and the citation list as they are. Otherwise, in
  each run the scan stops at a member \<open>b\<close> of the set, the file name of \<open>b\<close> is the one
  entered in the citation list, and the substitution for \<open>w\<close> is made with the number at
  whose position that name stands, also in the final list. Every member of the set is the
  choice for some order of the corpus. The shuffle is any function that returns a
  rearrangement of the list.
\<close>

theorem sources_bounded:
  assumes perm: "\<forall>g bs. mset (fst (shuffle g bs)) = mset bs"
    and ws1: "distinct (pre1 @ w # post1)" "\<forall>v \<in> set (pre1 @ w # post1). lower v = v"
    and ws2: "distinct (pre2 @ w # post2)" "\<forall>v \<in> set (pre2 @ w # post2). lower v = v"
    and star: "CHR ''*'' \<notin> set w"
    and run1: "citify sub shuffle (pre1 @ w # post1) (citify_init text corpus g1) = Inr final1"
    and run2: "citify sub shuffle (pre2 @ w # post2) (citify_init text corpus g2) = Inr final2"
  shows "(\<exists>st st'. citify sub shuffle pre1 (citify_init text corpus g1) = Inr st
           \<and> citify_word sub shuffle w st = Inr st'
           \<and> (if candidates corpus w = {}
              then pick w (fst (shuffle (rng st) (books st))) = None
                   \<and> book1_text st' = book1_text st \<and> cite_filenames st' = cite_filenames st
              else \<exists>b \<in> candidates corpus w. \<exists>n.
                     pick w (fst (shuffle (rng st) (books st))) = Some b
                     \<and> sub w n (book1_text st) = Inr (book1_text st')
                     \<and> 0 < n \<and> n \<le> length (cite_filenames st')
                     \<and> cite_filenames st' ! (n - 1) = filename b
                     \<and> cite_filenames st' = add_cite (cite_filenames st) (filename b)
                     \<and> cite_filenames final1 ! (n - 1) = filename b))
       \<and> (\<exists>st st'. citify sub shuffle pre2 (citify_init text corpus g2) = Inr st
           \<and> citify_word sub shuffle w st = Inr st'
           \<and> (if candidates corpus w = {}
              then pick w (fst (shuffle (rng st) (books st))) = None
                   \<and> book1_text st' = book1_text st \<and> cite_filenames st' = cite_filenames st
              else \<exists>b \<in> candidates corpus w. \<exists>n.
                     pick w (fst (shuffle (rng st) (books st))) = Some b
                     \<and> sub w n (book1_text st) = Inr (book1_text st')
                     \<and> 0 < n \<and> n \<le> length (cite_filenames st')
                     \<and> cite_filenames st' ! (n - 1) = filename b
                     \<and> cite_filenames st' = add_cite (cite_filenames st) (filename b)
                     \<and> cite_filenames final2 ! (n - 1) = filename b))
       \<and> (\<forall>b \<in> candidates corpus w. \<exists>bs. mset bs = mset corpus \<and> pick w bs = Some b)"
  using word_step [OF perm ws1 star run1] word_step [OF perm ws2 star run2] pick_reachable
  by blast

lemma sea_run_0:
  "citify re_sub_word rotate_shuffle ([] @ ''sea'' # []) (citify_init ''The sea'' example_corpus 0)
   = Inr (sea_final 0)"
  by code_simp

lemma sea_run_1:
  "citify re_sub_word rotate_shuffle ([] @ ''sea'' # []) (citify_init ''The sea'' example_corpus 1)
   = Inr (sea_final 1)"
  by code_simp

theorem sources_bounded_witness:
  "cite_filenames (sea_final 0) = [''a.txt''] \<and> cite_filenames (sea_final 1) = [''b.txt'']
   \<and> (\<exists>st st'. citify re_sub_word rotate_shuffle [] (citify_init ''The sea'' example_corpus 1) = Inr st
         \<and> citify_word re_sub_word rotate_shuffle ''sea'' st = Inr st'
         \<and> (if candidates example_corpus ''sea'' = {}
            then pick ''sea'' (fst (rotate_shuffle (rng st) (books st))) = None
                 \<and> book1_text st' = book1_text st \<and> cite_filenames st' = cite_filenames st
            else \<exists>b \<in> candidates example_corpus ''sea''. \<exists>n.
                   pick ''sea'' (fst (rotate_shuffle (rng st) (books st))) = Some b
                   \<and> re_sub_word ''sea'' n (book1_text st) = Inr (book1_text st')
                   \<and> 0 < n \<and> n \<le> length (cite_filenames st')
                   \<and> cite_filenames st' ! (n - 1) = filename b
                   \<and> cite_filenames st' = add_cite (cite_filenames st) (filename b)
                   \<and> cite_filenames (sea_final 1) ! (n - 1) = filename b))"
proof -
  have ws: "distinct ([] @ ''sea'' # [])" "\<forall>v \<in> set ([] @ ''sea'' # []). lower v = v"
    by (simp, code_simp)
  have star: "CHR ''*'' \<notin> set ''sea''" by simp
  have names: "cite_filenames (sea_final 0) = [''a.txt'']" "cite_filenames (sea_final 1) = [''b.txt'']"
    by code_simp+
  from sources_bounded [OF rotate_shuffle_perm ws ws star sea_run_0 sea_run_1] names
  show ?thesis by blast
qed


subsection \<open>Markers and references\<close>






subsection \<open>Missing metadata\<close>

lemma lookup_absent: "md ident = None \<Longrightarrow> lookup md ident key = Inl KeyError"
  by (simp add: lookup_def)

lemma cite_line_absent:
  "md ident = None \<Longrightarrow>
   cite_line i ident md
   = Inr (''<r>'' @ show_nat (i + 1) @ ''</r> [Unknown author], <i>['' @ ident @ '']</i>'',
          [ident, ident])"
  by (simp add: cite_line_def cite_author_def cite_title_def catch_KeyError_def lookup_absent
      format_value_def)

lemma make_cites_from_absent:
  "\<forall>f \<in> set ids. md f = None \<Longrightarrow>
   \<exists>out ps. make_cites_from i ids md = Inr (out, ps) \<and> length out = length ids"
proof (induction ids arbitrary: i)
  case Nil
  then show ?case by simp
next
  case (Cons ident ids)
  from Cons.IH [of "Suc i"] Cons.prems obtain out ps where
    "make_cites_from (Suc i) ids md = Inr (out, ps)" "length out = length ids"
    by auto
  with Cons.prems show ?case by (simp add: cite_line_absent)
qed

text \<open>
  Claim C5. For a citation file name that the metadata store lacks, the iteration of
  \<^verbatim>\<open>make_cites\<close> raises nothing: its line has the author \<^verbatim>\<open>[Unknown author]\<close> and
  the title \<^verbatim>\<open>[filename]\<close>, the name is printed (once by each handler), and the loop
  goes on with the remaining names: it ends in an error only if a later name raises one,
  and never if all the names are absent.
\<close>

theorem missing_metadata_placeholder:
  assumes "md ident = None"
  shows "cite_line i ident md
         = Inr (''<r>'' @ show_nat (i + 1) @ ''</r> [Unknown author], <i>['' @ ident @ '']</i>'',
                [ident, ident])
       \<and> make_cites_from i (ident # rest) md
         = (case make_cites_from (Suc i) rest md of
              Inl e \<Rightarrow> Inl e
            | Inr (out, ps) \<Rightarrow>
                Inr ((''<r>'' @ show_nat (i + 1) @ ''</r> [Unknown author], <i>['' @ ident @ '']</i>'')
                       # out,
                     ident # ident # ps))
       \<and> ((\<forall>f \<in> set rest. md f = None) \<longrightarrow>
            (\<exists>out ps. make_cites (ident # rest) md = Inr (out, ps) \<and> length out = Suc (length rest)))"
proof -
  have "\<exists>out ps. make_cites (ident # rest) md = Inr (out, ps) \<and> length out = Suc (length rest)"
    if "\<forall>f \<in> set rest. md f = None"
    using make_cites_from_absent [of "ident # rest" md 0] that assms
    by (simp add: make_cites_def)
  then show ?thesis
    using assms by (simp add: cite_line_absent split: sum.splits prod.splits)
qed

theorem missing_metadata_placeholder_witness:
  "cite_line 0 ''b.txt'' example_metadata
   = Inr (''<r>1</r> [Unknown author], <i>[b.txt]</i>'', [''b.txt'', ''b.txt''])"
proof -
  have absent: "example_metadata ''b.txt'' = None"
    by (simp add: example_metadata_def)
  have one: "show_nat (0 + 1) = ''1''" by code_simp
  from missing_metadata_placeholder [of example_metadata "''b.txt''" 0 "[''a.txt'']", OF absent]
  have "cite_line 0 ''b.txt'' example_metadata
        = Inr (''<r>'' @ show_nat (0 + 1) @ ''</r> [Unknown author], <i>['' @ ''b.txt'' @ '']</i>'',
               [''b.txt'', ''b.txt''])"
    by (rule conjunct1)
  then show ?thesis unfolding one by simp
qed

subsection \<open>Undecodable files\<close>

text \<open>
  Claim C6. When the bytes of a file do not decode, \<^verbatim>\<open>Book.__init__\<close> still returns
  a document: the tokenizer is given the empty string, the token set is empty (the
  tokenizer finds no word in the empty string), and the scan for a word never stops at
  such a document.
\<close>

theorem undecodable_book_is_empty:
  assumes "Book_text fs path = Inl UnicodeDecodeError" and "tok [] = []"
  shows "Book_init tok fs path
         = Inr \<lparr>fullpath = path, filename = snd (os_path_split path), wordset = {}\<rparr>
       \<and> (\<forall>b w bs. Book_init tok fs path = Inr b \<longrightarrow> pick w bs \<noteq> Some b)
       \<and> (\<forall>b sub w rest st. Book_init tok fs path = Inr b \<longrightarrow>
            scan_books sub w (b # rest) (st :: 'g citify_state) = scan_books sub w rest st)"
proof -
  have init: "Book_init tok fs path
         = Inr \<lparr>fullpath = path, filename = snd (os_path_split path), wordset = {}\<rparr>"
    using assms by (simp add: Book_init_def)
  have "pick w bs \<noteq> Some b" if "wordset b = {}" for w bs b
    using that pick_Some [of w bs b] by auto
  with init show ?thesis by auto
qed

theorem undecodable_book_is_empty_witness:
  "Book_init example_tok bad_files ''PG2003-08/etext03/vbgle11a.txt''
   = Inr \<lparr>fullpath = ''PG2003-08/etext03/vbgle11a.txt'', filename = ''vbgle11a.txt'', wordset = {}\<rparr>"
proof -
  have bad: "Book_text bad_files ''PG2003-08/etext03/vbgle11a.txt'' = Inl UnicodeDecodeError"
    by code_simp
  have tok: "example_tok [] = []"
    by (simp add: example_tok_def)
  have name: "snd (os_path_split ''PG2003-08/etext03/vbgle11a.txt'') = ''vbgle11a.txt''"
    by code_simp
  from undecodable_book_is_empty
         [of bad_files "''PG2003-08/etext03/vbgle11a.txt''" example_tok, OF bad tok]
  have "Book_init example_tok bad_files ''PG2003-08/etext03/vbgle11a.txt''
        = Inr \<lparr>fullpath = ''PG2003-08/etext03/vbgle11a.txt'',
               filename = snd (os_path_split ''PG2003-08/etext03/vbgle11a.txt''), wordset = {}\<rparr>"
    by (rule conjunct1)
  then show ?thesis unfolding name .
qed

subsection \<open>An empty citation list\<close>

lemma coauthors_empty: "list_of {} = [] \<Longrightarrow> get_coauthors list_of [] md = Inr []"
  by (simp add: get_coauthors_def)

text \<open>
  Claim C8. With an empty citation list the run ends in an error and no document is
  written; when the title and the first author of the primary document are found, the
  error is the IndexError of \<^verbatim>\<open>coauthors[-1]\<close>. The enumeration of a set is a
  parameter; of the empty set it is the empty list.
\<close>

theorem empty_citations_fail:
  assumes "list_of {} = []"
  shows "(\<exists>e. write_output list_of md book1_filename text [] = Inl e)
       \<and> (\<forall>title author. lookup md book1_filename ''Title'' = Inr title \<longrightarrow>
             first_author md book1_filename = Inr author \<longrightarrow>
             write_output list_of md book1_filename text [] = Inl IndexError)"
  using coauthors_empty [of list_of md, OF assms]
  by (auto simp: write_output_def make_cites_def header_def last_item_def split: sum.splits)

theorem empty_citations_fail_witness:
  "write_output example_list_of example_metadata ''moby.txt'' ''The whale'' [] = Inl IndexError"
proof -
  have e: "example_list_of {} = []"
    by (simp add: example_list_of_def)
  have t: "lookup example_metadata ''moby.txt'' ''Title'' = Inr (Some ''Moby Dick'')"
    by code_simp
  have a: "first_author example_metadata ''moby.txt'' = Inr ''Herman Melville''"
    by code_simp
  from empty_citations_fail [of example_list_of example_metadata "''moby.txt''" "''The whale''", OF e] t a
  show ?thesis by blast
qed

subsection \<open>The cache\<close>

text \<open>
  Claim C4. The help text of \<^verbatim>\<open>--cache\<close> says that an existing cache makes the
  program ignore \<^verbatim>\<open>--inspec\<close> and \<^verbatim>\<open>--number\<close>. The test in \<^verbatim>\<open>main\<close> is
  \<^verbatim>\<open>if not books\<close>, which is also true of an empty list: with a cache file that holds
  the empty list (written by a run whose pattern matched no file) the corpus is scanned
  again, the result follows the pattern, and the cache file is rewritten.
\<close>

theorem empty_cache_is_rescanned:
  "load_books example_tok example_walk example_fnmatch example_sample example_files
      (Pickled []) ''PG2003-08/*.txt'' 0 True (0::nat)
   = Inr ([\<lparr>fullpath = ''PG2003-08/etext00/a.txt'', filename = ''a.txt'',
             wordset = {''whale'', ''sea''}\<rparr>],
          Pickled [\<lparr>fullpath = ''PG2003-08/etext00/a.txt'', filename = ''a.txt'',
                     wordset = {''whale'', ''sea''}\<rparr>],
          0)
   \<and> load_books example_tok example_walk example_fnmatch example_sample example_files
      (Pickled []) ''PG2003-08/*.htm'' 0 True (0::nat)
   = Inr ([], Pickled [], 0)"
  by code_simp

text \<open>
  With a cache file that holds a non-empty list the program does what the help text says:
  the corpus is that list, the cache file is left as it is and the generator is not used,
  whatever the pattern, the sample size and the files are.
\<close>

lemma cache_hit_nonempty:
  assumes "bs \<noteq> []"
  shows "load_books tok walk fnmatch sample fs (Pickled bs) inspec total_books True g
         = Inr (bs, Pickled bs, g)"
  using assms by (simp add: load_books_def load_cache_def falsy_def)

lemma cache_hit_nonempty_example:
  "load_books example_tok example_walk example_fnmatch example_sample example_files
      (Pickled example_corpus) ''PG2003-08/*.txt'' 1 True (0::nat)
   = Inr (example_corpus, Pickled example_corpus, 0)"
proof -
  have "example_corpus \<noteq> []" by (simp add: example_corpus_def)
  from cache_hit_nonempty [of example_corpus, OF this] show ?thesis .
qed

subsection \<open>The text after the loop\<close>

lemma is_word_lower: "is_word_char (lower_char c) = is_word_char c"
  using code_less_256 [of c] unfolding lower_char_def is_word_char_def Let_def
  by (auto simp: code_char_of)

lemma word_not_special: "is_word_char c \<Longrightarrow> \<not> re_special c"
  by (auto simp: re_special_def is_word_char_def code_def)

lemma wordy_simple: "wordy w \<Longrightarrow> simple_pattern w"
  by (auto simp: wordy_def simple_pattern_def list_all_iff word_not_special)

lemma dot_not_word: "\<not> is_word_char CHR ''.''"
  by (simp add: is_word_char_def code_def)

lemma atom_word: "atom_matches p c \<Longrightarrow> is_word_char p \<Longrightarrow> is_word_char c"
  using is_word_lower [of c] is_word_lower [of p] dot_not_word
  by (auto simp: atom_matches_def split: if_splits)

lemma atom_word_iff: "is_word_char p \<Longrightarrow> atom_matches p c \<longleftrightarrow> lower_char c = lower_char p"
  using dot_not_word by (auto simp: atom_matches_def)

lemma match_atoms_word:
  "list_all is_word_char w \<Longrightarrow>
   match_atoms w t \<longleftrightarrow> length w \<le> length t \<and> lower (take (length w) t) = lower w"
  by (induction w t rule: match_atoms.induct) (auto simp: atom_word_iff lower_def)

lemma lower_word: "list_all is_word_char (lower r) = list_all is_word_char r"
  by (simp add: lower_def list_all_iff is_word_lower)

lemma scan_step_nomatch:
  "t \<noteq> [] \<Longrightarrow> \<not> match_here w prev t \<Longrightarrow>
   re_sub_scan w m prev t = hd t # re_sub_scan w m (Some (hd t)) (tl t)"
  by (simp add: re_sub_scan.simps [of w m prev t])

lemma scan_step_match:
  "t \<noteq> [] \<Longrightarrow> w \<noteq> [] \<Longrightarrow> match_here w prev t \<Longrightarrow>
   re_sub_scan w m prev t
   = take (length w) t @ m @ re_sub_scan w m (last_opt (take (length w) t)) (drop (length w) t)"
  by (simp add: re_sub_scan.simps [of w m prev t])

lemma scan_Nil: "re_sub_scan w m prev [] = []"
  by (simp add: re_sub_scan.simps [of w m prev "[]"])

lemma scan_inside:
  "word_opt prev \<Longrightarrow> list_all is_word_char r \<Longrightarrow>
   re_sub_scan w m prev (r @ rest)
   = r @ re_sub_scan w m (if r = [] then prev else Some (last r)) rest"
proof (induction r arbitrary: prev)
  case Nil
  then show ?case by simp
next
  case (Cons c r)
  have "\<not> match_here w prev ((c # r) @ rest)"
    using Cons.prems by (simp add: match_here_def boundary_def head_opt_def word_opt_def)
  then have "re_sub_scan w m prev ((c # r) @ rest) = c # re_sub_scan w m (Some c) (r @ rest)"
    using scan_step_nomatch [of "(c # r) @ rest" w prev m] by simp
  also have "re_sub_scan w m (Some c) (r @ rest)
             = r @ re_sub_scan w m (if r = [] then Some c else Some (last r)) rest"
    using Cons.IH [of "Some c"] Cons.prems by (simp add: word_opt_def)
  finally show ?case by simp
qed

lemma scan_nonword:
  assumes "wordy w" "\<not> is_word_char c"
  shows "re_sub_scan w m prev (c # cs) = c # re_sub_scan w m (Some c) cs"
proof -
  from assms(1) obtain p ps where w: "w = p # ps" and p: "is_word_char p"
    by (cases w) (auto simp: wordy_def)
  have "\<not> match_atoms w (c # cs)"
    using atom_word [of p c] p assms(2) by (auto simp: w)
  then have "\<not> match_here w prev (c # cs)" by (simp add: match_here_def)
  then show ?thesis using scan_step_nomatch [of "c # cs" w prev m] by simp
qed

lemma match_run:
  assumes w: "wordy w" and prev: "\<not> word_opt prev"
    and r: "r \<noteq> []" "list_all is_word_char r"
    and rest: "rest = [] \<or> \<not> is_word_char (hd rest)"
  shows "match_here w prev (r @ rest) \<longleftrightarrow> lower r = lower w"
proof
  assume eq: "lower r = lower w"
  then have len: "length r = length w"
    by (metis length_map lower_def)
  have "boundary prev (head_opt (r @ rest))"
    using prev r by (cases r) (auto simp: boundary_def head_opt_def word_opt_def)
  moreover have "match_atoms w (r @ rest)"
    using w eq len by (simp add: match_atoms_word wordy_def)
  moreover have "boundary (last_opt (take (length w) (r @ rest))) (head_opt (drop (length w) (r @ rest)))"
    using r rest len
    by (cases rest) (auto simp: boundary_def head_opt_def last_opt_def word_opt_def list_all_iff)
  ultimately show "match_here w prev (r @ rest)" by (simp add: match_here_def)
next
  assume m: "match_here w prev (r @ rest)"
  let ?t = "r @ rest"
  from w have wl: "list_all is_word_char w" and wne: "w \<noteq> []" by (auto simp: wordy_def)
  from m have ma: "match_atoms w ?t"
    and b: "boundary (last_opt (take (length w) ?t)) (head_opt (drop (length w) ?t))"
    by (auto simp: match_here_def)
  from ma wl have le: "length w \<le> length ?t" and lo: "lower (take (length w) ?t) = lower w"
    by (auto simp: match_atoms_word)
  have tw: "list_all is_word_char (take (length w) ?t)"
    using lo wl lower_word by metis
  have "\<not> length r < length w"
  proof
    assume lt: "length r < length w"
    with le have "rest \<noteq> []" by auto
    with rest have nw: "\<not> is_word_char (hd rest)" by simp
    have "?t ! length r \<in> set (take (length w) ?t)"
      using lt le by (metis in_set_conv_nth length_take min.absorb2 nth_take)
    moreover have "?t ! length r = hd rest"
      using \<open>rest \<noteq> []\<close> by (simp add: nth_append hd_conv_nth)
    ultimately show False using tw nw by (auto simp: list_all_iff)
  qed
  moreover have "\<not> length w < length r"
  proof
    assume lt: "length w < length r"
    then have tk: "take (length w) ?t = take (length w) r" and dr: "drop (length w) ?t = drop (length w) r @ rest"
      by simp_all
    have "take (length w) r \<noteq> []" using wne lt by auto
    moreover have "is_word_char (last (take (length w) r))"
      using tw tk calculation by (metis last_in_set list_all_iff)
    moreover have "is_word_char (hd (drop (length w) r))"
      using lt r(2) by (metis drop_eq_Nil hd_in_set in_set_dropD leD list_all_iff)
    moreover have "drop (length w) r \<noteq> []" using lt by simp
    ultimately show False
      using b unfolding tk dr
      by (cases "drop (length w) r") (auto simp: boundary_def last_opt_def head_opt_def word_opt_def)
  qed
  ultimately have "length w = length r" by simp
  with lo show "lower r = lower w" by simp
qed

lemma scan_run:
  assumes w: "wordy w" and prev: "\<not> word_opt prev"
    and r: "r \<noteq> []" "list_all is_word_char r"
    and rest: "rest = [] \<or> \<not> is_word_char (hd rest)"
  shows "re_sub_scan w m prev (r @ rest)
         = r @ (if lower r = lower w then m else []) @ re_sub_scan w m (Some (last r)) rest"
proof (cases "lower r = lower w")
  case True
  then have len: "length r = length w" by (metis length_map lower_def)
  from True have "match_here w prev (r @ rest)"
    using match_run [OF w prev r rest] by simp
  from scan_step_match [OF _ _ this, of m] w r(1) len True show ?thesis
    by (simp add: wordy_def last_opt_def)
next
  case False
  then have "\<not> match_here w prev (r @ rest)"
    using match_run [OF w prev r rest] by simp
  from scan_step_nomatch [OF _ this, of m] r(1)
  have "re_sub_scan w m prev (r @ rest) = hd r # re_sub_scan w m (Some (hd r)) (tl r @ rest)"
    by simp
  also have "re_sub_scan w m (Some (hd r)) (tl r @ rest)
             = tl r @ re_sub_scan w m (if tl r = [] then Some (hd r) else Some (last (tl r))) rest"
    using r by (intro scan_inside) (cases r; auto simp: word_opt_def)+
  also have "(if tl r = [] then Some (hd r) else Some (last (tl r))) = Some (last r)"
    using r(1) by (cases r) auto
  finally show ?thesis using False r(1) by simp
qed

lemma run_split:
  assumes "t \<noteq> []" "is_word_char (hd t)"
  shows "takeWhile is_word_char t \<noteq> []" "list_all is_word_char (takeWhile is_word_char t)"
    "dropWhile is_word_char t = [] \<or> \<not> is_word_char (hd (dropWhile is_word_char t))"
proof -
  from assms show "takeWhile is_word_char t \<noteq> []" by (cases t) auto
  show "list_all is_word_char (takeWhile is_word_char t)"
    by (auto simp: list_all_iff dest: set_takeWhileD)
  show "dropWhile is_word_char t = [] \<or> \<not> is_word_char (hd (dropWhile is_word_char t))"
    using hd_dropWhile [of is_word_char t] by blast
qed

lemma mark_Nil: "annotate_runs f [] = []"
  by (simp add: annotate_runs.simps [of f "[]"])

lemma mark_nonword: "\<not> is_word_char c \<Longrightarrow> annotate_runs f (c # cs) = c # annotate_runs f cs"
  by (simp add: annotate_runs.simps [of f "c # cs"])

lemma mark_run:
  assumes "r \<noteq> []" "list_all is_word_char r" "rest = [] \<or> \<not> is_word_char (hd rest)"
  shows "annotate_runs f (r @ rest) = r @ f r @ annotate_runs f rest"
proof -
  have tw: "takeWhile is_word_char (r @ rest) = r"
    using assms by (cases rest) (auto simp: list_all_iff takeWhile_append2 takeWhile_eq_all_conv)
  have dw: "dropWhile is_word_char (r @ rest) = rest"
    using assms by (cases rest) (auto simp: list_all_iff dropWhile_append2)
  have "is_word_char (hd (r @ rest))" using assms by (cases r) auto
  then show ?thesis using assms(1) tw dw by (simp add: annotate_runs.simps [of f "r @ rest"])
qed

lemma mark_head:
  "t = [] \<or> \<not> is_word_char (hd t) \<Longrightarrow> annotate_runs f t = [] \<or> \<not> is_word_char (hd (annotate_runs f t))"
  by (cases t) (auto simp: mark_Nil mark_nonword)

lemma scan_mark:
  "wordy w \<Longrightarrow> \<not> word_opt prev \<or> t = [] \<or> \<not> is_word_char (hd t) \<Longrightarrow>
   re_sub_scan w m prev t = annotate_runs (mark_word w m) t"
proof (induction "mark_word w m" t arbitrary: prev rule: annotate_runs.induct)
  case (1 t)
  show ?case
  proof (cases "t = []")
    case True
    then show ?thesis by (simp add: scan_Nil mark_Nil)
  next
    case ne: False
    show ?thesis
    proof (cases "is_word_char (hd t)")
      case True
      let ?r = "takeWhile is_word_char t" and ?rest = "dropWhile is_word_char t"
      have t: "t = ?r @ ?rest" by simp
      note rs = run_split [OF ne True]
      from "1.prems" ne True have prev: "\<not> word_opt prev" by simp
      have "re_sub_scan w m prev (?r @ ?rest)
            = ?r @ mark_word w m ?r @ re_sub_scan w m (Some (last ?r)) ?rest"
        using scan_run [OF "1.prems"(1) prev rs] by (simp add: mark_word_def)
      moreover have "re_sub_scan w m (Some (last ?r)) ?rest = annotate_runs (mark_word w m) ?rest"
        using "1.hyps"(1) [OF ne True "1.prems"(1)] rs(3) by blast
      moreover have "annotate_runs (mark_word w m) (?r @ ?rest)
            = ?r @ mark_word w m ?r @ annotate_runs (mark_word w m) ?rest"
        by (rule mark_run [OF rs])
      ultimately show ?thesis by simp
    next
      case False
      from ne obtain c cs where t: "t = c # cs" by (cases t) auto
      have "re_sub_scan w m (Some c) cs = annotate_runs (mark_word w m) cs"
        using "1.hyps"(2) [OF ne False "1.prems"(1), of "Some c"] False t
        by (simp add: word_opt_def)
      then show ?thesis
        using False t scan_nonword [OF "1.prems"(1), of c m prev cs] by (simp add: mark_nonword)
    qed
  qed
qed

lemma mark_mark:
  "\<forall>r. list_all is_word_char (f r) \<Longrightarrow>
   annotate_runs g (annotate_runs f t) = annotate_runs (\<lambda>r. f r @ g (r @ f r)) t"
proof (induction f t rule: annotate_runs.induct)
  case (1 f t)
  show ?case
  proof (cases "t = []")
    case True
    then show ?thesis by (simp add: mark_Nil)
  next
    case ne: False
    show ?thesis
    proof (cases "is_word_char (hd t)")
      case True
      let ?r = "takeWhile is_word_char t" and ?rest = "dropWhile is_word_char t"
      let ?h = "\<lambda>r. f r @ g (r @ f r)"
      note rs = run_split [OF ne True]
      have m1: "annotate_runs f (?r @ ?rest) = ?r @ f ?r @ annotate_runs f ?rest"
        by (rule mark_run [OF rs])
      have big: "?r @ f ?r \<noteq> []" "list_all is_word_char (?r @ f ?r)"
        using rs "1.prems" by auto
      have m2: "annotate_runs g ((?r @ f ?r) @ annotate_runs f ?rest)
                = (?r @ f ?r) @ g (?r @ f ?r) @ annotate_runs g (annotate_runs f ?rest)"
        by (rule mark_run [OF big mark_head [OF rs(3)]])
      have m3: "annotate_runs ?h (?r @ ?rest) = ?r @ ?h ?r @ annotate_runs ?h ?rest"
        by (rule mark_run [OF rs])
      have ih: "annotate_runs g (annotate_runs f ?rest) = annotate_runs ?h ?rest"
        using "1.IH"(1) [OF ne True "1.prems"] .
      from m1 m2 m3 ih show ?thesis by simp
    next
      case False
      from ne obtain c cs where t: "t = c # cs" by (cases t) auto
      have "annotate_runs g (annotate_runs f cs) = annotate_runs (\<lambda>r. f r @ g (r @ f r)) cs"
        using "1.IH"(2) [OF ne False "1.prems"] t by simp
      with False t show ?thesis by (simp add: mark_nonword)
    qed
  qed
qed

lemma digit_word: "is_digit c \<Longrightarrow> is_word_char c"
  by (simp add: is_digit_def is_word_char_def)

lemma digit_char_digit: "d < 10 \<Longrightarrow> is_digit (digit_char d)"
  by (simp add: is_digit_def digit_char_def code_char_of)

lemma show_nat_digits: "list_all is_digit (show_nat n)"
proof (induction n rule: show_nat.induct)
  case (1 n)
  show ?case
  proof (cases "n < 10")
    case True
    then show ?thesis by (simp add: show_nat.simps [of n] digit_char_digit)
  next
    case False
    with 1 show ?thesis by (simp add: show_nat.simps [of n] digit_char_digit)
  qed
qed

lemma REF_word: "list_all is_word_char ''REF''"
  by (simp add: is_word_char_def code_def)

lemma marker_word: "list_all is_word_char (marker n)"
  using show_nat_digits [of n] REF_word by (auto simp: marker_def list_all_iff digit_word)

lemma lower_REF: "lower ''REF'' = ''ref''"
  by code_simp

lemma lower_append: "lower (a @ b) = lower a @ lower b"
  by (simp add: lower_def)

lemma marker_suffix: "suffix ''ref'' (lower (r @ marker n))"
proof -
  have "lower (r @ marker n) = lower r @ lower ''REF'' @ lower (show_nat n) @ lower ''REF''"
    by (simp only: marker_def lower_append)
  then have "lower (r @ marker n) = (lower r @ ''ref'' @ lower (show_nat n)) @ ''ref''"
    by (simp only: lower_REF append_assoc)
  then show ?thesis by (metis suffixI)
qed

lemma mark_cited_empty: "mark_cited Map.empty = (\<lambda>r. [])"
  by (rule ext) (simp add: mark_cited_def)

lemma star_not_word: "\<not> is_word_char CHR ''*''"
  by (simp add: is_word_char_def code_def)

lemma wordy_no_star: "wordy w \<Longrightarrow> CHR ''*'' \<notin> set w"
  using star_not_word by (auto simp: wordy_def list_all_iff)

lemma mark_cited_word: "list_all is_word_char (mark_cited num r)"
  by (simp add: mark_cited_def marker_word split: option.splits)

lemma mark_empty: "annotate_runs (\<lambda>r. []) t = t"
proof (induction "\<lambda>r :: string. [] :: string" t rule: annotate_runs.induct)
  case (1 t)
  show ?case
  proof (cases "t = []")
    case True
    then show ?thesis by (simp add: mark_Nil)
  next
    case ne: False
    show ?thesis
    proof (cases "is_word_char (hd t)")
      case True
      with ne 1(1) show ?thesis by (simp add: annotate_runs.simps [of _ t])
    next
      case False
      with ne 1(2) show ?thesis by (simp add: annotate_runs.simps [of _ t])
    qed
  qed
qed

lemma mark_cited_step:
  assumes dom: "w \<notin> dom num" and w: "lower w = w" "wordy w" "\<not> suffix ''ref'' w"
  shows "re_sub_scan w (marker n) None (annotate_runs (mark_cited num) t0)
         = annotate_runs (mark_cited (num(w \<mapsto> n))) t0"
proof -
  have "(\<lambda>r. mark_cited num r @ mark_word w (marker n) (r @ mark_cited num r))
        = mark_cited (num(w \<mapsto> n))"
  proof
    fix r
    show "mark_cited num r @ mark_word w (marker n) (r @ mark_cited num r)
          = mark_cited (num(w \<mapsto> n)) r"
    proof (cases "num (lower r)")
      case None
      then show ?thesis using w(1) by (auto simp: mark_cited_def mark_word_def)
    next
      case (Some k)
      with dom have ne: "lower r \<noteq> w" by auto
      have "lower (r @ marker k) \<noteq> lower w"
        using marker_suffix [of r k] w(1,3) by auto
      with Some ne show ?thesis by (simp add: mark_cited_def mark_word_def)
    qed
  qed
  moreover have "re_sub_scan w (marker n) None (annotate_runs (mark_cited num) t0)
        = annotate_runs (mark_word w (marker n)) (annotate_runs (mark_cited num) t0)"
    using scan_mark [OF w(2), of None] by (simp add: word_opt_def)
  moreover have "annotate_runs (mark_word w (marker n)) (annotate_runs (mark_cited num) t0)
        = annotate_runs (\<lambda>r. mark_cited num r @ mark_word w (marker n) (r @ mark_cited num r)) t0"
    using mark_mark [of "mark_cited num"] mark_cited_word by blast
  ultimately show ?thesis by simp
qed

lemma citify_marks:
  assumes perm: "\<forall>g bs. mset (fst (shuffle g bs)) = mset bs"
    and ws: "distinct ws" "\<forall>w \<in> set ws. lower w = w \<and> wordy w \<and> \<not> suffix ''ref'' w"
    and run: "citify re_sub_word shuffle ws (citify_init t0 corpus g) = Inr final"
  shows "\<exists>num. book1_text final = annotate_runs (mark_cited num) t0
           \<and> dom num = {w \<in> set ws. candidates corpus w \<noteq> {}}
           \<and> (\<forall>w n. num w = Some n \<longrightarrow>
                 0 < n \<and> n \<le> length (cite_filenames final)
                 \<and> (\<exists>b \<in> candidates corpus w. cite_filenames final ! (n - 1) = filename b))"
  using ws run
proof (induction ws arbitrary: final rule: rev_induct)
  case Nil
  then have "final = citify_init t0 corpus g" by simp
  then have "book1_text final = annotate_runs (mark_cited Map.empty) t0"
    by (simp add: citify_init_def mark_cited_empty mark_empty)
  then show ?case by (intro exI [of _ Map.empty]) simp
next
  case (snoc w ws)
  let ?init = "citify_init t0 corpus g"
  from snoc.prems(3) obtain st where st: "citify re_sub_word shuffle ws ?init = Inr st"
    and step: "citify_word re_sub_word shuffle w st = Inr final"
    by (auto simp: citify_append split: sum.splits)
  from snoc.prems have ws: "distinct ws" "\<forall>v \<in> set ws. lower v = v \<and> wordy v \<and> \<not> suffix ''ref'' v"
    and w: "w \<notin> set ws" "lower w = w" "wordy w" "\<not> suffix ''ref'' w"
    by auto
  from snoc.IH [OF ws st] obtain num where
    tx: "book1_text st = annotate_runs (mark_cited num) t0" and
    dom: "dom num = {v \<in> set ws. candidates corpus v \<noteq> {}}" and
    nums: "\<And>v n. num v = Some n \<Longrightarrow> 0 < n \<and> n \<le> length (cite_filenames st)
             \<and> (\<exists>b \<in> candidates corpus v. cite_filenames st ! (n - 1) = filename b)"
    by blast
  have "done_words st = unstarred ws"
    using citify_done [OF st] by (simp add: citify_init_def)
  also have "\<dots> \<subseteq> set ws" using ws(2) by (auto simp: unstarred_def)
  finally have ns: "\<not> skipped w st"
    using w wordy_no_star by (auto simp: skipped_def)
  have bs: "mset (fst (shuffle (rng st) (books st))) = mset corpus"
    using citify_books [OF st perm] perm by (simp add: citify_init_def)
  note cand = pick_candidates [OF bs, of w]
  from step show ?case
  proof (cases rule: citify_word_cases)
    case skip
    with ns show ?thesis by simp
  next
    case miss
    with cand have "candidates corpus w = {}" by simp
    with dom have "dom num = {v \<in> set (ws @ [w]). candidates corpus v \<noteq> {}}" by auto
    with miss tx nums show ?thesis by (intro exI [of _ num]) simp
  next
    case (hit b n)
    with cand have b: "b \<in> candidates corpus w" by simp
    let ?num = "num(w \<mapsto> n)"
    from dom w(1) have "w \<notin> dom num" by auto
    from mark_cited_step [OF this w(2,3,4), of n t0] hit(4) tx
    have tx': "book1_text final = annotate_runs (mark_cited ?num) t0"
      using wordy_simple [OF w(3)] by (simp add: re_sub_word_def)
    from dom b have dom': "dom ?num = {v \<in> set (ws @ [w]). candidates corpus v \<noteq> {}}"
      by auto
    from cite_number_nth [of "cite_filenames st" "filename b"] hit(3,5)
    have n: "0 < n" "n \<le> length (cite_filenames final)" "cite_filenames final ! (n - 1) = filename b"
      by auto
    from hit(5) obtain more where more: "cite_filenames final = cite_filenames st @ more"
      using add_cite_prefix [of "cite_filenames st" "filename b"] by (auto simp: prefix_def)
    have "0 < k \<and> k \<le> length (cite_filenames final)
          \<and> (\<exists>b \<in> candidates corpus v. cite_filenames final ! (k - 1) = filename b)"
      if "?num v = Some k" for v k
    proof (cases "v = w")
      case True
      with that n b show ?thesis by auto
    next
      case False
      with that have "num v = Some k" by simp
      from nums [OF this] more show ?thesis by (auto simp: nth_append)
    qed
    with tx' dom' show ?thesis by (intro exI [of _ ?num]) blast
  qed
qed

text \<open>
  Claim C1, as stated, fails. The primary text \<^verbatim>\<open>new-york new\<close> has the tokens
  \<^verbatim>\<open>new-york\<close> and \<^verbatim>\<open>new\<close> (the tokenizer keeps a hyphenated word whole). No corpus
  document contains \<^verbatim>\<open>new-york\<close>, yet its occurrence does not stay as it was: the
  pattern for \<^verbatim>\<open>new\<close> matches inside it, since \<^verbatim>\<open>\b\<close> holds before the hyphen.
\<close>

theorem word_annotation_counterexample:
  "citify re_sub_word rotate_shuffle [''new-york'', ''new''] (citify_init ''new-york new'' hyphen_corpus 0)
   = Inr \<lparr>book1_text = ''newREF1REF-york newREF1REF'', done_words = {''new'', ''new-york''},
          cite_filenames = [''a.txt''], books = hyphen_corpus, rng = 2\<rparr>
   \<and> candidates hyphen_corpus ''new-york'' = {}
   \<and> occurs ''new-york'' ''new-york new''
   \<and> \<not> occurs ''new-york'' ''newREF1REF-york newREF1REF''
   \<and> sub_sentinel ''newREF1REF-york newREF1REF'' = ''new<r>1</r>-york new<r>1</r>''
   \<and> \<not> occurs ''new-york'' ''new<r>1</r>-york new<r>1</r>''"
  by code_simp

text \<open>
  Claim C1, amended. In a run that completes, over the distinct lower-case words of the
  primary document, every word without an asterisk is handled by one iteration. If no
  corpus document contains the word, the iteration leaves the text and the citation list
  as they are; otherwise it makes one substitution, with one number \<open>n\<close>, and the final
  citation list holds at position \<open>n - 1\<close> the file name of a corpus document whose token
  set contains the word. The substitution for another word can still rewrite a part of
  the word's occurrences. When every word consists of word characters and none ends in
  \<^verbatim>\<open>ref\<close>, that cannot happen: the text after the loop is the primary text in which
  every maximal run of word characters that equals, ignoring case, a word found in the
  corpus is followed by the marker of that word's number, and nothing else is changed.
\<close>

theorem word_annotation:
  assumes perm: "\<forall>g bs. mset (fst (shuffle g bs)) = mset bs"
    and ws: "distinct ws" "\<forall>v \<in> set ws. lower v = v"
    and run: "citify sub shuffle ws (citify_init t0 corpus g) = Inr final"
  shows "(\<forall>pre w post. ws = pre @ w # post \<longrightarrow> CHR ''*'' \<notin> set w \<longrightarrow>
           (\<exists>st st'. citify sub shuffle pre (citify_init t0 corpus g) = Inr st
               \<and> citify_word sub shuffle w st = Inr st'
               \<and> citify sub shuffle post st' = Inr final
               \<and> (if candidates corpus w = {}
                  then book1_text st' = book1_text st \<and> cite_filenames st' = cite_filenames st
                  else \<exists>b \<in> candidates corpus w. \<exists>n.
                         sub w n (book1_text st) = Inr (book1_text st')
                         \<and> 0 < n \<and> n \<le> length (cite_filenames final)
                         \<and> cite_filenames final ! (n - 1) = filename b)))
       \<and> (sub = re_sub_word \<longrightarrow> (\<forall>v \<in> set ws. wordy v \<and> \<not> suffix ''ref'' v) \<longrightarrow>
           (\<exists>num. book1_text final = annotate_runs (mark_cited num) t0
               \<and> dom num = {w \<in> set ws. candidates corpus w \<noteq> {}}
               \<and> (\<forall>w n. num w = Some n \<longrightarrow>
                     0 < n \<and> n \<le> length (cite_filenames final)
                     \<and> (\<exists>b \<in> candidates corpus w. cite_filenames final ! (n - 1) = filename b))))"
proof (intro conjI allI impI)
  fix pre w post
  assume split: "ws = pre @ w # post" and star: "CHR ''*'' \<notin> set w"
  let ?init = "citify_init t0 corpus g"
  from run split obtain st st' where
    st: "citify sub shuffle pre ?init = Inr st" and
    step: "citify_word sub shuffle w st = Inr st'" and
    fin: "citify sub shuffle post st' = Inr final"
    by (auto simp: citify_append split: sum.splits)
  have ns: "\<not> skipped w st"
    using unskipped_in_run [OF ws split st] star by (simp add: skipped_def)
  have bs: "mset (fst (shuffle (rng st) (books st))) = mset corpus"
    using citify_books [OF st perm] perm by (simp add: citify_init_def)
  note cand = pick_candidates [OF bs, of w]
  have "if candidates corpus w = {}
        then book1_text st' = book1_text st \<and> cite_filenames st' = cite_filenames st
        else \<exists>b \<in> candidates corpus w. \<exists>n.
               sub w n (book1_text st) = Inr (book1_text st')
               \<and> 0 < n \<and> n \<le> length (cite_filenames final)
               \<and> cite_filenames final ! (n - 1) = filename b"
    using step
  proof (cases rule: citify_word_cases)
    case skip
    with ns show ?thesis by simp
  next
    case miss
    with cand show ?thesis by simp
  next
    case (hit b n)
    with cand have b: "b \<in> candidates corpus w" by simp
    from cite_number_nth [of "cite_filenames st" "filename b"] hit(3,5)
    have n: "0 < n" "n \<le> length (cite_filenames st')" "cite_filenames st' ! (n - 1) = filename b"
      by auto
    from citify_prefix [OF fin] obtain more where "cite_filenames final = cite_filenames st' @ more"
      by (auto simp: prefix_def)
    with n have "n \<le> length (cite_filenames final)" "cite_filenames final ! (n - 1) = filename b"
      by (auto simp: nth_append)
    with b hit(4) n(1) show ?thesis by auto
  qed
  with st step fin show "\<exists>st st'. citify sub shuffle pre ?init = Inr st
               \<and> citify_word sub shuffle w st = Inr st'
               \<and> citify sub shuffle post st' = Inr final
               \<and> (if candidates corpus w = {}
                  then book1_text st' = book1_text st \<and> cite_filenames st' = cite_filenames st
                  else \<exists>b \<in> candidates corpus w. \<exists>n.
                         sub w n (book1_text st) = Inr (book1_text st')
                         \<and> 0 < n \<and> n \<le> length (cite_filenames final)
                         \<and> cite_filenames final ! (n - 1) = filename b)"
    by blast
next
  assume "sub = re_sub_word" and "\<forall>v \<in> set ws. wordy v \<and> \<not> suffix ''ref'' v"
  with ws run show "\<exists>num. book1_text final = annotate_runs (mark_cited num) t0
               \<and> dom num = {w \<in> set ws. candidates corpus w \<noteq> {}}
               \<and> (\<forall>w n. num w = Some n \<longrightarrow>
                     0 < n \<and> n \<le> length (cite_filenames final)
                     \<and> (\<exists>b \<in> candidates corpus w. cite_filenames final ! (n - 1) = filename b))"
    using citify_marks [OF perm ws(1), of t0 corpus g final] by simp
qed

theorem word_annotation_witness:
  "\<exists>num. ''TheREF1REF whaleREF2REF'' = annotate_runs (mark_cited num) ''The whale''
      \<and> dom num = {w \<in> {''the'', ''whale''}. candidates example_corpus w \<noteq> {}}
      \<and> (\<forall>w n. num w = Some n \<longrightarrow>
            0 < n \<and> n \<le> length [''b.txt'', ''a.txt'']
            \<and> (\<exists>b \<in> candidates example_corpus w. [''b.txt'', ''a.txt''] ! (n - 1) = filename b))"
proof -
  have ws: "distinct [''the'', ''whale'']" "\<forall>v \<in> set [''the'', ''whale'']. lower v = v"
    by (simp, code_simp)
  have wordy: "\<forall>v \<in> set [''the'', ''whale'']. wordy v \<and> \<not> suffix ''ref'' v"
    by code_simp
  from word_annotation [OF rotate_shuffle_perm ws example_run] wordy show ?thesis
    by (simp add: example_final_def)
qed


end
